theory Spec2Isabelle
  imports Main "HOL-Library.Word" "HOL-Library.Sublist" "HOL-Library.AList" "HOL-Library.Multiset"
begin

section \<open>Objects delivered by the watch cache\<close>

text \<open>
  The cache hands out values of type \<open>interface{}\<close>. Three shapes occur in the code:
  the nil interface, a typed resource object (a pointer to a Kubernetes object, which
  implements \<open>metav1.Object\<close> and so has a namespace, a name and a UID), and the value
  \<open>cache.DeletedFinalStateUnknown{Key, Obj}\<close> that wraps the last known state of a
  deleted object. A \<open>reflect.Type\<close> token is modelled by \<open>rtype\<close>; resource types are
  told apart by their type name.
\<close>

datatype rtype = NilType | DeletedFinalStateUnknownType | ResourceType string

datatype object =
    NilObj
  | Resource string string string string
  | DeletedFinalStateUnknown string object

text \<open>\<open>reflect.TypeOf(obj)\<close>.\<close>

fun TypeOf :: "object \<Rightarrow> rtype" where
  "TypeOf NilObj = NilType"
| "TypeOf (Resource t ns n u) = ResourceType t"
| "TypeOf (DeletedFinalStateUnknown k ob) = DeletedFinalStateUnknownType"

text \<open>
  The type assertion \<open>obj.(metav1.Object)\<close>: it succeeds on resource objects only. The
  result is (namespace, name, uid); \<open>None\<close> is the panic of a failed assertion.
\<close>

fun asMetaObject :: "object \<Rightarrow> (string \<times> string \<times> string) option" where
  "asMetaObject (Resource t ns n u) = Some (ns, n, u)"
| "asMetaObject NilObj = None"
| "asMetaObject (DeletedFinalStateUnknown k ob) = None"

definition GetNamespace :: "string \<times> string \<times> string \<Rightarrow> string" where
  "GetNamespace m = fst m"

definition GetName :: "string \<times> string \<times> string \<Rightarrow> string" where
  "GetName m = fst (snd m)"

definition GetUID :: "string \<times> string \<times> string \<Rightarrow> string" where
  "GetUID m = snd (snd m)"

section \<open>Handlers\<close>

text \<open>
  The constants \<open>handlerAlive\<close>, \<open>handlerDead\<close> and \<open>minHandlerPriority\<close> are declared
  outside the given sources, so every function that reads one of them takes them as the
  parameter \<open>K\<close>.
\<close>

record factory_consts =
  handlerAlive :: "32 word"
  handlerDead :: "32 word"
  minHandlerPriority :: int

text \<open>
  \<open>type Handler struct { base; id uint64; tombstone uint32; priority int }\<close>. The
  callback bundle \<open>base\<close> is foreign code; it is identified by a number, and a call of
  one of its three methods is recorded as a \<open>base_call\<close>. The field \<open>id\<close> is \<open>hid\<close>
  here.
\<close>

record Handler =
  base :: nat
  hid :: "64 word"
  tombstone :: "32 word"
  priority :: int

datatype base_call =
    Base_OnAdd nat object
  | Base_OnUpdate nat object object
  | Base_OnDelete nat object

definition OnAdd :: "factory_consts \<Rightarrow> Handler \<Rightarrow> object \<Rightarrow> base_call list" where
  "OnAdd K h ob =
     (if tombstone h = handlerAlive K then [Base_OnAdd (base h) ob] else [])"

definition OnUpdate :: "factory_consts \<Rightarrow> Handler \<Rightarrow> object \<Rightarrow> object \<Rightarrow> base_call list" where
  "OnUpdate K h oldOb newOb =
     (if tombstone h = handlerAlive K then [Base_OnUpdate (base h) oldOb newOb] else [])"

definition OnDelete :: "factory_consts \<Rightarrow> Handler \<Rightarrow> object \<Rightarrow> base_call list" where
  "OnDelete K h ob =
     (if tombstone h = handlerAlive K then [Base_OnDelete (base h) ob] else [])"

text \<open>
  \<open>kill\<close> is \<open>atomic.CompareAndSwapUint32(&h.tombstone, handlerAlive, handlerDead)\<close>:
  it returns whether the swap happened, and the handler after it.
\<close>

definition kill :: "factory_consts \<Rightarrow> Handler \<Rightarrow> bool \<times> Handler" where
  "kill K h =
     (if tombstone h = handlerAlive K
      then (True, h\<lparr>tombstone := handlerDead K\<rparr>)
      else (False, h))"

section \<open>Effects of the informer\<close>

text \<open>
  Handlers are shared by pointer between the informer's map, the caller of
  \<open>addHandler\<close> and the closures in the event queues. A pointer is an address
  \<open>href\<close> into a store of handlers. What an informer operation does to the outside is
  recorded as a list of effects: method calls on handlers (by address) and log lines
  (format string and arguments). Metrics are left out.
\<close>

type_synonym href = nat

datatype fmtarg = ArgType rtype | ArgObj object | ArgStr string | ArgId "64 word"

datatype effect =
    Call_OnAdd href object
  | Call_OnUpdate href object object
  | Call_OnDelete href object
  | klog_Errorf string "fmtarg list"
  | klog_Warningf string "fmtarg list"
  | klog_Infof string "fmtarg list"

datatype fault = TypeAssertionPanic | NilPointerPanic | IndexOutOfRangePanic | IntnPanic

text \<open>The handler an effect is a call on, if it is a call.\<close>

fun callee :: "effect \<Rightarrow> href option" where
  "callee (Call_OnAdd h ob) = Some h"
| "callee (Call_OnUpdate h oldOb newOb) = Some h"
| "callee (Call_OnDelete h ob) = Some h"
| "callee (klog_Errorf f as) = None"
| "callee (klog_Warningf f as) = None"
| "callee (klog_Infof f as) = None"

text \<open>What a recorded call does with the handler stored at its address.\<close>

fun deliver :: "factory_consts \<Rightarrow> (href \<Rightarrow> Handler) \<Rightarrow> effect \<Rightarrow> base_call list" where
  "deliver K hs (Call_OnAdd h ob) = OnAdd K (hs h) ob"
| "deliver K hs (Call_OnUpdate h oldOb newOb) = OnUpdate K (hs h) oldOb newOb"
| "deliver K hs (Call_OnDelete h ob) = OnDelete K (hs h) ob"
| "deliver K hs (klog_Errorf f as) = []"
| "deliver K hs (klog_Warningf f as) = []"
| "deliver K hs (klog_Infof f as) = []"

section \<open>The informer and its fan-out\<close>

text \<open>
  \<open>handlers map[int]map[uint64]*Handler\<close>: both levels are association lists with
  one pair per key. Indexing the outer map with a missing priority gives the nil map,
  which ranges over nothing. Go does not fix the order in which \<open>range\<close> visits a map;
  the order of an association list stands for the order one run happens to take, and
  the theorems hold for every such list.
\<close>

record informer =
  oType :: rtype
  handlers :: "(int \<times> (64 word \<times> href) list) list"
  initialAddFunc :: "href \<Rightarrow> object list \<Rightarrow> effect list"

text \<open>\<open>i.handlers[priority]\<close>.\<close>

definition handlersAt :: "informer \<Rightarrow> int \<Rightarrow> (64 word \<times> href) list" where
  "handlersAt i p = (case map_of (handlers i) p of None \<Rightarrow> [] | Some m \<Rightarrow> m)"

text \<open>
  Running a closure on a sequence of handlers; a panic in the closure ends the run.
\<close>

fun forEachIn :: "(href \<Rightarrow> fault + effect list) \<Rightarrow> href list \<Rightarrow> fault + effect list" where
  "forEachIn f [] = Inr []"
| "forEachIn f (h # hs) =
     (case f h of
        Inl e \<Rightarrow> Inl e
      | Inr cs \<Rightarrow> (case forEachIn f hs of Inl e \<Rightarrow> Inl e | Inr ds \<Rightarrow> Inr (cs @ ds)))"

text \<open>
  The handlers in the order of the loop
  \<open>for priority := 0; priority <= minHandlerPriority; priority++\<close> with the inner
  \<open>range i.handlers[priority]\<close>, and in the order of the reversed loop
  \<open>for priority := minHandlerPriority; priority >= 0; priority--\<close>.
\<close>

definition handlersAscending :: "factory_consts \<Rightarrow> informer \<Rightarrow> href list" where
  "handlersAscending K i =
     concat (map (\<lambda>p. map snd (handlersAt i p)) [0..minHandlerPriority K])"

definition handlersDescending :: "factory_consts \<Rightarrow> informer \<Rightarrow> href list" where
  "handlersDescending K i =
     concat (map (\<lambda>p. map snd (handlersAt i p)) (rev [0..minHandlerPriority K]))"

definition forEachQueuedHandler ::
  "factory_consts \<Rightarrow> informer \<Rightarrow> (href \<Rightarrow> fault + effect list) \<Rightarrow> fault + effect list" where
  "forEachQueuedHandler K i f = forEachIn f (handlersAscending K i)"

definition forEachQueuedHandlerReversed ::
  "factory_consts \<Rightarrow> informer \<Rightarrow> (href \<Rightarrow> fault + effect list) \<Rightarrow> fault + effect list" where
  "forEachQueuedHandlerReversed K i f = forEachIn f (handlersDescending K i)"

definition forEachHandler ::
  "factory_consts \<Rightarrow> informer \<Rightarrow> object \<Rightarrow> (href \<Rightarrow> fault + effect list) \<Rightarrow> fault + effect list" where
  "forEachHandler K i ob f =
     (let objType = TypeOf ob in
      if objType \<noteq> oType i
      then Inr [klog_Errorf ''Object type %v did not match expected %v''
                  [ArgType objType, ArgType (oType i)]]
      else forEachIn f (handlersAscending K i))"

definition forEachHandlerReversed ::
  "factory_consts \<Rightarrow> informer \<Rightarrow> object \<Rightarrow> (href \<Rightarrow> fault + effect list) \<Rightarrow> fault + effect list" where
  "forEachHandlerReversed K i ob f =
     (let objType = TypeOf ob in
      if objType \<noteq> oType i
      then Inr [klog_Errorf ''Object type %v did not match expected %v''
                  [ArgType objType, ArgType (oType i)]]
      else forEachIn f (handlersDescending K i))"

section \<open>Deletes and tombstones\<close>

text \<open>
  \<open>ensureObjectOnDelete\<close> returns the object to route, or the error built by
  \<open>fmt.Errorf\<close> (format string and arguments).
\<close>

definition ensureObjectOnDelete :: "object \<Rightarrow> rtype \<Rightarrow> (string \<times> fmtarg list) + object" where
  "ensureObjectOnDelete ob expectedType =
     (if expectedType = TypeOf ob then Inr ob
      else case ob of
        DeletedFinalStateUnknown k inner \<Rightarrow>
          (let objType = TypeOf inner in
           if expectedType \<noteq> objType
           then Inl (''expected tombstone object resource type %v but got %v'',
                     [ArgType expectedType, ArgType objType])
           else Inr inner)
      | _ \<Rightarrow> Inl (''couldn't get object from tombstone: %+v'', [ArgObj ob]))"

section \<open>The closures handed to the fan-out\<close>

text \<open>
  The update closure of both delivery paths. \<open>oldOb\<close> and \<open>newOb\<close> are the captured
  arguments of \<open>UpdateFunc\<close>, on which the UIDs are compared; \<open>dOld\<close> and \<open>dNew\<close>
  are the objects passed on to the handler (the same two objects in the federated path,
  \<open>e.oldObj\<close> and \<open>e.obj\<close> in the queued path).
\<close>

definition updateClosure :: "object \<Rightarrow> object \<Rightarrow> object \<Rightarrow> object \<Rightarrow> href \<Rightarrow> fault + effect list" where
  "updateClosure oldOb newOb dOld dNew h =
     (case asMetaObject oldOb of
        None \<Rightarrow> Inl TypeAssertionPanic
      | Some old \<Rightarrow>
         (case asMetaObject newOb of
            None \<Rightarrow> Inl TypeAssertionPanic
          | Some new \<Rightarrow>
             if GetUID old \<noteq> GetUID new
             then Inr [klog_Infof ''Object %s/%s is replaced, invoking delete followed by add handler''
                         [ArgStr (GetNamespace new), ArgStr (GetName new)],
                       Call_OnDelete h dOld, Call_OnAdd h dNew]
             else Inr [Call_OnUpdate h dOld dNew]))"

definition addClosure :: "object \<Rightarrow> href \<Rightarrow> fault + effect list" where
  "addClosure ob h = Inr [Call_OnAdd h ob]"

definition deleteClosure :: "object \<Rightarrow> href \<Rightarrow> fault + effect list" where
  "deleteClosure ob h = Inr [Call_OnDelete h ob]"

section \<open>The federated (synchronous) handler\<close>


definition federated_UpdateFunc ::
  "factory_consts \<Rightarrow> informer \<Rightarrow> object \<Rightarrow> object \<Rightarrow> fault + effect list" where
  "federated_UpdateFunc K i oldOb newOb =
     forEachHandler K i newOb (updateClosure oldOb newOb oldOb newOb)"

definition federated_DeleteFunc :: "factory_consts \<Rightarrow> informer \<Rightarrow> object \<Rightarrow> fault + effect list" where
  "federated_DeleteFunc K i ob =
     (case ensureObjectOnDelete ob (oType i) of
        Inl err \<Rightarrow> Inr [klog_Errorf (fst err) (snd err)]
      | Inr realObj \<Rightarrow> forEachHandlerReversed K i realObj (deleteClosure realObj))"

section \<open>The queue map\<close>

text \<open>
  \<open>ktypes.NamespacedName\<close> is the pair (namespace, name). The entries of the map are
  shared by pointer between the map and the closures of the queued events, so they live
  in a store indexed by address; \<open>nextEntry\<close> is the next unused address. A channel
  \<open>chan *event\<close> of capacity 10 is the list of the events buffered in it, oldest first.
  \<open>refcount\<close> is an \<open>int32\<close>: a 32-bit word read as two's complement.
\<close>

type_synonym NamespacedName = "string \<times> string"

type_synonym eref = nat

record queueMapEntry =
  queue :: "32 word"
  refcount :: "32 word"

text \<open>
  The closure passed to \<open>enqueueEvent\<close> as \<open>processFunc\<close> is one of four: the add,
  update and delete closures of \<open>newFederatedQueuedHandler\<close> (the update closure
  captures the two arguments of \<open>UpdateFunc\<close>), and the closure of the initial adds
  for one new handler. The closure stored in \<open>event.process\<close> wraps it and captures
  \<open>key\<close>, \<open>entry\<close> and \<open>isDel\<close> for the release. In the record of an event the
  fields \<open>obj\<close> and \<open>oldObj\<close> are \<open>ev_obj\<close> and \<open>ev_oldObj\<close>, and the three
  captured values are \<open>rel_key\<close>, \<open>rel_entry\<close> (\<open>None\<close> for a nil pointer) and
  \<open>rel_isDel\<close>.
\<close>

datatype proc = ProcAdd | ProcUpdate object object | ProcDelete | ProcInitialAdd href

record event =
  ev_obj :: object
  ev_oldObj :: object
  processFunc :: proc
  rel_key :: NamespacedName
  rel_entry :: "eref option"
  rel_isDel :: bool

record queueMap =
  entries :: "NamespacedName \<rightharpoonup> eref"
  entryStore :: "eref \<Rightarrow> queueMapEntry"
  nextEntry :: eref
  queues :: "event list list"

definition chanCap :: nat where
  "chanCap = 10"

definition newQueueMap :: "32 word \<Rightarrow> queueMap" where
  "newQueueMap numEventQueues =
     \<lparr>entries = Map.empty,
      entryStore = (\<lambda>a. \<lparr>queue = 0, refcount = 0\<rparr>),
      nextEntry = 0,
      queues = replicate (unat numEventQueues) []\<rparr>"

text \<open>
  Modelled from the spec: \<open>cryptorand.Intn\<close> is not part of the given sources. The spec
  says only that a random start index is picked. The draw is represented by a number
  \<open>seed\<close> supplied from outside, reduced into the range of \<open>Intn(n)\<close>, which is
  \<open>[0, n)\<close>; for \<open>n \<le> 0\<close> there is no result (the call panics).
\<close>

definition Intn :: "nat \<Rightarrow> int \<Rightarrow> int option" where
  "Intn seed n = (if n \<le> 0 then None else Some (int seed mod n))"

text \<open>
  The loop \<open>for j = 0; j < numEventQueues; j++\<close> of \<open>getNewQueueNum\<close>, on \<open>uint32\<close>
  values; an index beyond the slice is the panic of the source.
\<close>

function getNewQueueNum_loop ::
  "event list list \<Rightarrow> 32 word \<Rightarrow> 32 word \<Rightarrow> 32 word \<Rightarrow> nat \<Rightarrow> 32 word \<Rightarrow> fault + 32 word" where
  "getNewQueueNum_loop qs numEventQueues startIdx j lowestNum queueIdx =
     (if j < numEventQueues then
        (let tryQueue = (startIdx + j) mod numEventQueues in
         if length qs \<le> unat tryQueue then Inl IndexOutOfRangePanic
         else
           (let num = length (qs ! unat tryQueue) in
            if num < lowestNum
            then getNewQueueNum_loop qs numEventQueues startIdx (j + 1) num tryQueue
            else getNewQueueNum_loop qs numEventQueues startIdx (j + 1) lowestNum queueIdx))
      else Inr queueIdx)"
  by pat_completeness auto
termination
proof (relation "measure (\<lambda>(qs, n, startIdx, j, lowestNum, queueIdx). unat n - unat j)")
  show "wf (measure (\<lambda>(qs, n, startIdx, j, lowestNum, queueIdx). unat n - unat j))"
    by simp
next
  fix qs :: "event list list" and n startIdx j :: "32 word" and lowestNum :: nat
    and queueIdx x xa :: "32 word" and xb :: nat
  assume "j < n"
  then have lt: "unat j < unat n" by (simp add: word_less_nat_alt)
  moreover have "unat n < 2 ^ 32" using unsigned_less [of n] by simp
  ultimately have "unat j + 1 < 2 ^ 32" by linarith
  then have "unat (j + 1) = unat j + 1" by (simp add: unat_word_ariths)
  with lt show "((qs, n, startIdx, j + 1, xb, x), (qs, n, startIdx, j, lowestNum, queueIdx))
      \<in> measure (\<lambda>(qs, n, startIdx, j, lowestNum, queueIdx). unat n - unat j)"
    by simp
  from \<open>unat (j + 1) = unat j + 1\<close> lt
  show "((qs, n, startIdx, j + 1, lowestNum, queueIdx), (qs, n, startIdx, j, lowestNum, queueIdx))
      \<in> measure (\<lambda>(qs, n, startIdx, j, lowestNum, queueIdx). unat n - unat j)"
    by simp
qed

declare getNewQueueNum_loop.simps [simp del]

text \<open>
  \<open>numEventQueues := uint32(len(qm.queues))\<close>, the argument of \<open>Intn\<close> is
  \<open>int64(numEventQueues - 1)\<close> with the subtraction in \<open>uint32\<close>, and the result of
  \<open>Intn\<close> is cut to \<open>uint32\<close>.
\<close>

definition getNewQueueNum :: "queueMap \<Rightarrow> nat \<Rightarrow> fault + 32 word" where
  "getNewQueueNum qm seed =
     (let numEventQueues = (of_nat (length (queues qm)) :: 32 word) in
      case Intn seed (uint (numEventQueues - 1)) of
        None \<Rightarrow> Inl IntnPanic
      | Some r \<Rightarrow>
         (let startIdx = (word_of_int r :: 32 word) in
          if length (queues qm) \<le> unat startIdx then Inl IndexOutOfRangePanic
          else getNewQueueNum_loop (queues qm) numEventQueues startIdx 0
                 (length (queues qm ! unat startIdx)) startIdx))"

text \<open>
  Modelled from the spec: \<open>getObjectMeta\<close> is not part of the given sources. Following
  the spec's type discipline (an object whose runtime type is not the informer's declared
  type is a mismatch), it yields the metadata of an object of the declared type and an
  error for any other object.
\<close>

definition getObjectMeta :: "rtype \<Rightarrow> object \<Rightarrow> (string \<times> fmtarg list) + (string \<times> string \<times> string)" where
  "getObjectMeta t ob =
     (if TypeOf ob = t
      then (case asMetaObject ob of
              Some m \<Rightarrow> Inr m
            | None \<Rightarrow> Inl (''cannot get ObjectMeta from type %v'', [ArgType t]))
      else Inl (''cannot get ObjectMeta from type %v'', [ArgType t]))"

text \<open>
  \<open>getQueueMapEntry\<close> returns the key, the entry (a pointer, \<open>None\<close> for nil), the
  queue map after the call and the log lines written. \<open>atomic.AddInt32\<close> returns the
  new value of the counter.
\<close>

definition getQueueMapEntry ::
  "rtype \<Rightarrow> object \<Rightarrow> nat \<Rightarrow> queueMap
     \<Rightarrow> fault + (NamespacedName \<times> eref option \<times> queueMap \<times> effect list)" where
  "getQueueMapEntry t ob seed qm =
     (case getObjectMeta t ob of
        Inl err \<Rightarrow>
          Inr (([], []), None, qm,
               [klog_Errorf ''Object has no meta: %v'' [ArgStr (fst err)]])
      | Inr meta \<Rightarrow>
         (let namespacedName = (GetNamespace meta, GetName meta) in
          case entries qm namespacedName of
            Some a \<Rightarrow>
              (let e = (entryStore qm a)\<lparr>refcount := refcount (entryStore qm a) + 1\<rparr> in
               if refcount e = 1
               then (case getNewQueueNum qm seed of
                       Inl f \<Rightarrow> Inl f
                     | Inr q \<Rightarrow>
                         Inr (namespacedName, Some a,
                              qm\<lparr>entryStore := (entryStore qm)(a := e\<lparr>queue := q\<rparr>)\<rparr>, []))
               else Inr (namespacedName, Some a,
                         qm\<lparr>entryStore := (entryStore qm)(a := e)\<rparr>, []))
          | None \<Rightarrow>
              (case getNewQueueNum qm seed of
                 Inl f \<Rightarrow> Inl f
               | Inr q \<Rightarrow>
                   (let a = nextEntry qm in
                    Inr (namespacedName, Some a,
                         qm\<lparr>entries := (entries qm)(namespacedName \<mapsto> a),
                            entryStore := (entryStore qm)(a := \<lparr>queue = q, refcount = 1\<rparr>),
                            nextEntry := Suc a\<rparr>, [])))))"

definition releaseQueueMapEntry ::
  "NamespacedName \<Rightarrow> eref option \<Rightarrow> bool \<Rightarrow> queueMap \<Rightarrow> queueMap" where
  "releaseQueueMapEntry k entry del qm =
     (case entry of
        None \<Rightarrow> qm
      | Some a \<Rightarrow>
         (let e = (entryStore qm a)\<lparr>refcount := refcount (entryStore qm a) - 1\<rparr>;
              qm1 = qm\<lparr>entryStore := (entryStore qm)(a := e)\<rparr>
          in if \<not> del then qm1
             else if sint (refcount e) \<le> 0
                  then qm1\<lparr>entries := (entries qm1)(k := None)\<rparr>
                  else qm1))"

text \<open>
  \<open>enqueueEvent\<close> up to its channel send: the queue map after \<open>getQueueMapEntry\<close>, the
  index \<open>entry.queue\<close> of the channel and the event to send. Reading \<open>entry.queue\<close>
  through a nil entry is the panic of the source.
\<close>

definition enqueueEvent ::
  "object \<Rightarrow> object \<Rightarrow> rtype \<Rightarrow> bool \<Rightarrow> proc \<Rightarrow> nat \<Rightarrow> queueMap
     \<Rightarrow> fault + (queueMap \<times> (32 word \<times> event) \<times> effect list)" where
  "enqueueEvent oldOb ob t isDel pf seed qm =
     (case getQueueMapEntry t ob seed qm of
        Inl f \<Rightarrow> Inl f
      | Inr (k, entry, qm1, logs) \<Rightarrow>
         (case entry of
            None \<Rightarrow> Inl NilPointerPanic
          | Some a \<Rightarrow>
              Inr (qm1,
                   (queue (entryStore qm1 a),
                    \<lparr>ev_obj = ob, ev_oldObj = oldOb, processFunc = pf,
                     rel_key = k, rel_entry = entry, rel_isDel = isDel\<rparr>),
                   logs)))"

section \<open>The queued handler\<close>

text \<open>
  The three functions of \<open>newFederatedQueuedHandler\<close>. Each hands an event to the queue
  map \<open>i.queueMap\<close>, here the argument \<open>qm\<close>; a delete that \<open>ensureObjectOnDelete\<close>
  rejects is logged and nothing is enqueued.
\<close>

definition queued_AddFunc ::
  "informer \<Rightarrow> object \<Rightarrow> nat \<Rightarrow> queueMap
     \<Rightarrow> fault + (queueMap \<times> (32 word \<times> event) \<times> effect list)" where
  "queued_AddFunc i ob seed qm = enqueueEvent NilObj ob (oType i) False ProcAdd seed qm"

definition queued_UpdateFunc ::
  "informer \<Rightarrow> object \<Rightarrow> object \<Rightarrow> nat \<Rightarrow> queueMap
     \<Rightarrow> fault + (queueMap \<times> (32 word \<times> event) \<times> effect list)" where
  "queued_UpdateFunc i oldOb newOb seed qm =
     enqueueEvent oldOb newOb (oType i) False (ProcUpdate oldOb newOb) seed qm"

definition queued_DeleteFunc ::
  "informer \<Rightarrow> object \<Rightarrow> nat \<Rightarrow> queueMap
     \<Rightarrow> fault + (queueMap \<times> (32 word \<times> event) option \<times> effect list)" where
  "queued_DeleteFunc i ob seed qm =
     (case ensureObjectOnDelete ob (oType i) of
        Inl err \<Rightarrow> Inr (qm, None, [klog_Errorf (fst err) (snd err)])
      | Inr realObj \<Rightarrow>
         (case enqueueEvent NilObj realObj (oType i) True ProcDelete seed qm of
            Inl f \<Rightarrow> Inl f
          | Inr (qm1, snd1, logs) \<Rightarrow> Inr (qm1, Some snd1, logs)))"

text \<open>What the worker runs when it calls \<open>processFunc(e)\<close>.\<close>

fun runProcessFunc :: "factory_consts \<Rightarrow> informer \<Rightarrow> proc \<Rightarrow> event \<Rightarrow> fault + effect list" where
  "runProcessFunc K i ProcAdd e = forEachQueuedHandler K i (addClosure (ev_obj e))"
| "runProcessFunc K i (ProcUpdate oldOb newOb) e =
     forEachQueuedHandler K i (updateClosure oldOb newOb (ev_oldObj e) (ev_obj e))"
| "runProcessFunc K i ProcDelete e = forEachQueuedHandlerReversed K i (deleteClosure (ev_obj e))"
| "runProcessFunc K i (ProcInitialAdd h) e = Inr [Call_OnAdd h (ev_obj e)]"

text \<open>
  \<open>e.process(e)\<close>: the closure built by \<open>enqueueEvent\<close> runs \<open>processFunc\<close> and then
  releases the queue map entry.
\<close>

definition process ::
  "factory_consts \<Rightarrow> informer \<Rightarrow> event \<Rightarrow> queueMap \<Rightarrow> fault + (effect list \<times> queueMap)" where
  "process K i e qm =
     (case runProcessFunc K i (processFunc e) e of
        Inl f \<Rightarrow> Inl f
      | Inr effs \<Rightarrow>
          Inr (effs, releaseQueueMapEntry (rel_key e) (rel_entry e) (rel_isDel e) qm))"

section \<open>A queue map with its producer and its workers\<close>

text \<open>
  The state of one queue map in use: the map itself, the \<open>enqueueEvent\<close> call that has
  taken its entry and waits at the channel send (the cache delivers the events of one
  informer from a single goroutine, so there is at most one), and for every queue the
  event its \<open>processEvents\<close> goroutine has received and is processing. \<open>lastCompleted\<close>
  is a history variable, not program state: for each key, whether the event that
  completed last was a delete.
\<close>

record qsys =
  qmap :: queueMap
  sending :: "(32 word \<times> event) option"
  workers :: "event option list"
  lastCompleted :: "NamespacedName \<rightharpoonup> bool"

definition initial :: "32 word \<Rightarrow> qsys" where
  "initial numEventQueues =
     \<lparr>qmap = newQueueMap numEventQueues,
      sending = None,
      workers = replicate (unat numEventQueues) None,
      lastCompleted = Map.empty\<rparr>"

text \<open>
  The moves of the system. \<open>DoEnqueue\<close> is a call of \<open>enqueueEvent\<close> up to its send,
  \<open>DoSend\<close> the send (possible when the channel has room), \<open>DoReceive w\<close> the receive
  of worker \<open>w\<close> from its channel, \<open>DoFinish w\<close> the end of \<open>e.process(e)\<close> on worker
  \<open>w\<close>, where the entry is released. What \<open>processFunc\<close> itself does is outside the
  queue map and not part of this state.
\<close>

datatype action =
    DoEnqueue object object bool proc nat
  | DoSend
  | DoReceive nat
  | DoFinish nat

datatype stop = Panics fault | NotEnabled

fun qstep :: "rtype \<Rightarrow> action \<Rightarrow> qsys \<Rightarrow> stop + qsys" where
  "qstep t (DoEnqueue oldOb ob isDel pf seed) s =
     (case sending s of
        Some p \<Rightarrow> Inl NotEnabled
      | None \<Rightarrow>
         (case enqueueEvent oldOb ob t isDel pf seed (qmap s) of
            Inl f \<Rightarrow> Inl (Panics f)
          | Inr (qm1, snd1, logs) \<Rightarrow> Inr (s\<lparr>qmap := qm1, sending := Some snd1\<rparr>)))"
| "qstep t DoSend s =
     (case sending s of
        None \<Rightarrow> Inl NotEnabled
      | Some (q, e) \<Rightarrow>
          if length (queues (qmap s)) \<le> unat q then Inl (Panics IndexOutOfRangePanic)
          else if chanCap \<le> length (queues (qmap s) ! unat q) then Inl NotEnabled
          else Inr (s\<lparr>qmap := (qmap s)\<lparr>queues :=
                          (queues (qmap s))[unat q := queues (qmap s) ! unat q @ [e]]\<rparr>,
                      sending := None\<rparr>))"
| "qstep t (DoReceive w) s =
     (if length (workers s) \<le> w \<or> length (queues (qmap s)) \<le> w then Inl NotEnabled
      else case workers s ! w of
        Some e \<Rightarrow> Inl NotEnabled
      | None \<Rightarrow>
         (case queues (qmap s) ! w of
            [] \<Rightarrow> Inl NotEnabled
          | e # rest \<Rightarrow>
              Inr (s\<lparr>qmap := (qmap s)\<lparr>queues := (queues (qmap s))[w := rest]\<rparr>,
                     workers := (workers s)[w := Some e]\<rparr>)))"
| "qstep t (DoFinish w) s =
     (if length (workers s) \<le> w then Inl NotEnabled
      else case workers s ! w of
        None \<Rightarrow> Inl NotEnabled
      | Some e \<Rightarrow>
          Inr (s\<lparr>qmap := releaseQueueMapEntry (rel_key e) (rel_entry e) (rel_isDel e) (qmap s),
                 workers := (workers s)[w := None],
                 lastCompleted := (lastCompleted s)(rel_key e \<mapsto> rel_isDel e)\<rparr>))"

fun run :: "rtype \<Rightarrow> action list \<Rightarrow> qsys \<Rightarrow> stop + qsys" where
  "run t [] s = Inr s"
| "run t (a # as) s = (case qstep t a s of Inl x \<Rightarrow> Inl x | Inr s1 \<Rightarrow> run t as s1)"

text \<open>
  The events in flight: taken by \<open>enqueueEvent\<close> and not yet released. They are waiting
  at the send, buffered in a channel, or being processed by a worker.
\<close>

definition inflight :: "qsys \<Rightarrow> event multiset" where
  "inflight s =
     mset (map snd (case sending s of None \<Rightarrow> [] | Some p \<Rightarrow> [p]))
     + mset (concat (queues (qmap s)))
     + mset (concat (map (\<lambda>w. case w of None \<Rightarrow> [] | Some e \<Rightarrow> [e]) (workers s)))"

definition inflightFor :: "qsys \<Rightarrow> NamespacedName \<Rightarrow> event multiset" where
  "inflightFor s k = filter_mset (\<lambda>e. rel_key e = k) (inflight s)"

section \<open>Registering and removing handlers\<close>

text \<open>
  \<open>newInformer\<close> installs the initial-add function of the federated informer: the
  existing items are delivered to the new handler alone, one \<open>OnAdd\<close> each.
\<close>

definition newInformer :: "rtype \<Rightarrow> informer" where
  "newInformer t =
     \<lparr>oType = t, handlers = [], initialAddFunc = (\<lambda>h items. map (Call_OnAdd h) items)\<rparr>"

text \<open>
  \<open>addHandler\<close>: \<open>a\<close> is the address of the newly allocated handler and \<open>b\<close> stands for
  its filter and callbacks. The result is the handler's address, the informer and the
  handler store after the call, and the effects of the initial adds.
\<close>

definition addHandler ::
  "factory_consts \<Rightarrow> informer \<Rightarrow> (href \<Rightarrow> Handler) \<Rightarrow> href \<Rightarrow> nat \<Rightarrow> 64 word \<Rightarrow> int \<Rightarrow> object list
     \<Rightarrow> href \<times> informer \<times> (href \<Rightarrow> Handler) \<times> effect list" where
  "addHandler K i hs a b ident prio existingItems =
     (let handler = \<lparr>base = b, hid = ident, tombstone = handlerAlive K, priority = prio\<rparr>;
          hs1 = hs(a := handler);
          effs = initialAddFunc i a existingItems
      in (a,
          i\<lparr>handlers := AList.update prio (AList.update ident a (handlersAt i prio)) (handlers i)\<rparr>,
          hs1, effs))"

text \<open>
  \<open>removeHandler\<close> up to the start of its goroutine: the handler store after
  \<open>kill\<close>, whether the goroutine is started, and the log lines.
\<close>

definition removeHandler ::
  "factory_consts \<Rightarrow> informer \<Rightarrow> (href \<Rightarrow> Handler) \<Rightarrow> href \<Rightarrow> (href \<Rightarrow> Handler) \<times> bool \<times> effect list" where
  "removeHandler K i hs a =
     (case kill K (hs a) of
        (ok, h1) \<Rightarrow>
          if \<not> ok
          then (hs(a := h1), False,
                [klog_Errorf ''Removing already-removed %v event handler %d''
                   [ArgType (oType i), ArgId (hid (hs a))]])
          else (hs(a := h1), True,
                [klog_Infof ''Sending %v event handler %d for removal''
                   [ArgType (oType i), ArgId (hid (hs a))]]))"

text \<open>
  The goroutine of \<open>removeHandler\<close>: it deletes the handler's id from the inner map of
  every priority and warns when no map held it.
\<close>

definition removeHandler_go :: "informer \<Rightarrow> 64 word \<Rightarrow> informer \<times> effect list" where
  "removeHandler_go i ident =
     (let logs = concat (map (\<lambda>(p, m).
                    if map_of m ident \<noteq> None
                    then [klog_Infof ''Removed %v event handler %d'' [ArgType (oType i), ArgId ident]]
                    else []) (handlers i));
          hm = map (\<lambda>(p, m). (p, AList.delete ident m)) (handlers i)
      in (i\<lparr>handlers := hm\<rparr>,
          if logs = []
          then [klog_Warningf ''Tried to remove unknown object type %v event handler %d''
                  [ArgType (oType i), ArgId ident]]
          else logs))"

section \<open>The network controller manager\<close>

text \<open>
  Everything the manager calls is outside the given sources: the database clients, the
  watch factory, the controllers, the feature probes. One run of the manager sees one
  outcome of each such call; the record \<open>mgr_env\<close> holds these outcomes. An error is
  its message, \<open>None\<close> is the nil error. \<open>GetNBZone n\<close> is the outcome of the call
  number \<open>n\<close> of \<open>util.GetNBZone\<close>; \<open>pollTries\<close> is the number of further polls that fit
  into the deadline; \<open>nadController\<close> is \<open>None\<close> when the field is nil and otherwise the
  outcome of its \<open>Start\<close>; \<open>fmtBand\<close> and \<open>fmtMeter\<close> are the renderings of the meter
  band and the meter by \<open>%v\<close>.
\<close>

datatype controller =
    SecondaryLayer3NetworkController string
  | SecondaryLayer2NetworkController string
  | SecondaryLocalnetNetworkController string

record mgr_env =
  cfgZone :: string
  enableConfigDuration :: bool
  pollTries :: nat
  GetNBZone :: "nat \<Rightarrow> string + string"
  DetectSCTPSupport :: "string + bool"
  RunOVNNbctl_fails :: bool
  CreateMeterBandOps :: "string option"
  CreateOrUpdateMeterOps :: "string option"
  TransactAndCheck :: "string option"
  WatchFactory_Start :: "string option"
  NewCommonNetworkControllerInfo :: "string option"
  NewDefaultNetworkController :: "string option"
  DefaultNetworkController_Start :: "string option"
  nadController :: "string option option"
  lsRows :: "string + (string \<rightharpoonup> string) list"
  lrRows :: "string + (string \<rightharpoonup> string) list"
  Cleanup :: "controller \<Rightarrow> string \<Rightarrow> string option"
  fmtBand :: string
  fmtMeter :: string

text \<open>What the manager does to the outside, in order.\<close>

datatype mgr_effect =
    Log_Info string
  | Log_Warning string
  | Log_Error string
  | Call_configureMetrics
  | Call_Transact
  | Call_ConfigDurationRecorder_Run
  | Call_PodRecorder_Run
  | Call_WatchFactory_Start
  | Call_NewDefaultNetworkController
  | Call_DefaultNetworkController_Start
  | Call_NadController_Start
  | Call_Cleanup controller string

record networkControllerManager =
  SCTPSupport :: bool
  svcTemplateSupport :: bool
  hasDefaultNetworkController :: bool

text \<open>
  Modelled from the spec: the constants of package \<open>ovntypes\<close> are not part of the given
  sources. The spec names the topology tags \<open>layer3\<close>, \<open>layer2\<close> and \<open>localnet\<close>, and
  shows the external ids of a secondary network's switch as
  \<open>{network=netA, topology=layer3}\<close>.
\<close>

definition Layer3Topology :: string where
  "Layer3Topology = ''layer3''"

definition Layer2Topology :: string where
  "Layer2Topology = ''layer2''"

definition LocalnetTopology :: string where
  "LocalnetTopology = ''localnet''"

definition NetworkExternalID :: string where
  "NetworkExternalID = ''network''"

definition TopologyExternalID :: string where
  "TopologyExternalID = ''topology''"

text \<open>Indexing a Go \<open>map[string]string\<close>: a missing key gives the empty string.\<close>

definition index :: "(string \<rightharpoonup> string) \<Rightarrow> string \<Rightarrow> string" where
  "index m k = (case m k of None \<Rightarrow> [] | Some v \<Rightarrow> v)"

definition newDummyNetworkController :: "mgr_env \<Rightarrow> string \<Rightarrow> string \<Rightarrow> string + controller" where
  "newDummyNetworkController env topoType netName =
     (case NewCommonNetworkControllerInfo env of
        Some err \<Rightarrow> Inl (''failed to create network controller info '' @ err)
      | None \<Rightarrow>
          if topoType = Layer3Topology then Inr (SecondaryLayer3NetworkController netName)
          else if topoType = Layer2Topology then Inr (SecondaryLayer2NetworkController netName)
          else if topoType = LocalnetTopology then Inr (SecondaryLocalnetNetworkController netName)
          else Inl (''topology type '' @ topoType @ '' not supported''))"

text \<open>
  Modelled from the spec: \<open>FindLogicalSwitchesWithPredicate\<close> and
  \<open>FindLogicalRoutersWithPredicate\<close> are not part of the given sources. They fail with
  the error of the database client or return the rows that satisfy the predicate; a row
  is represented by its external ids.
\<close>

definition FindWithPredicate ::
  "string + (string \<rightharpoonup> string) list \<Rightarrow> ((string \<rightharpoonup> string) \<Rightarrow> bool) \<Rightarrow> string + (string \<rightharpoonup> string) list" where
  "FindWithPredicate rows p = (case rows of Inl err \<Rightarrow> Inl err | Inr rs \<Rightarrow> Inr (filter p rs))"

definition findAllSecondaryNetworkLogicalEntities ::
  "mgr_env \<Rightarrow> (string \<times> mgr_effect list) + ((string \<rightharpoonup> string) list \<times> (string \<rightharpoonup> string) list)" where
  "findAllSecondaryNetworkLogicalEntities env =
     (case FindWithPredicate (lsRows env) (\<lambda>item. item NetworkExternalID \<noteq> None) of
        Inl err \<Rightarrow>
          Inl (err, [Log_Error (''Failed to get all logical switches of secondary network error: '' @ err)])
      | Inr nodeSwitches \<Rightarrow>
         (case FindWithPredicate (lrRows env) (\<lambda>item. item NetworkExternalID \<noteq> None) of
            Inl err \<Rightarrow>
              Inl (err, [Log_Error (''Failed to get all distributed logical routers: '' @ err)])
          | Inr clusterRouters \<Rightarrow> Inr (nodeSwitches, clusterRouters)))"

definition GetNetworkName :: "controller \<Rightarrow> string" where
  "GetNetworkName oc =
     (case oc of
        SecondaryLayer3NetworkController n \<Rightarrow> n
      | SecondaryLayer2NetworkController n \<Rightarrow> n
      | SecondaryLocalnetNetworkController n \<Rightarrow> n)"

text \<open>
  One pass of the two loops over switches and over routers, which have the same body.
  \<open>staleNetworkControllers map[string]NetworkController\<close> is an association list.
\<close>

fun collectStale ::
  "mgr_env \<Rightarrow> string list \<Rightarrow> (string \<rightharpoonup> string) list
     \<Rightarrow> (string \<times> controller) list \<times> mgr_effect list
     \<Rightarrow> (string \<times> controller) list \<times> mgr_effect list" where
  "collectStale env existing [] acc = acc"
| "collectStale env existing (row # rows) (stale, effs) =
     (let netName = index row NetworkExternalID in
      if netName \<in> set existing then collectStale env existing rows (stale, effs)
      else
        (let topoType = index row TopologyExternalID;
             effs1 = effs @ [Log_Info (''Found stale '' @ topoType @ '' network '' @ netName)]
         in case newDummyNetworkController env topoType netName of
              Inr oc \<Rightarrow> collectStale env existing rows (AList.update netName oc stale, effs1)
            | Inl err \<Rightarrow> collectStale env existing rows (stale, effs1)))"

text \<open>The loop \<open>for netName, oc := range staleNetworkControllers\<close>.\<close>

fun cleanupAll :: "mgr_env \<Rightarrow> (string \<times> controller) list \<Rightarrow> mgr_effect list" where
  "cleanupAll env [] = []"
| "cleanupAll env ((netName, oc) # rest) =
     [Log_Info (''Cleanup entities for stale network '' @ netName), Call_Cleanup oc netName]
     @ (case Cleanup env oc netName of
          Some err \<Rightarrow>
            [Log_Error (''Failed to delete stale OVN logical entities for network ''
                          @ netName @ '': '' @ err)]
        | None \<Rightarrow> [])
     @ cleanupAll env rest"

definition staleNetworkControllers ::
  "mgr_env \<Rightarrow> controller list \<Rightarrow> (string \<rightharpoonup> string) list \<Rightarrow> (string \<rightharpoonup> string) list
     \<Rightarrow> (string \<times> controller) list \<times> mgr_effect list" where
  "staleNetworkControllers env allControllers switches routers =
     collectStale env (map GetNetworkName allControllers) routers
       (collectStale env (map GetNetworkName allControllers) switches ([], []))"

definition CleanupDeletedNetworks :: "mgr_env \<Rightarrow> controller list \<Rightarrow> string option \<times> mgr_effect list" where
  "CleanupDeletedNetworks env allControllers =
     (case findAllSecondaryNetworkLogicalEntities env of
        Inl (err, logs) \<Rightarrow> (Some err, logs)
      | Inr (switches, routers) \<Rightarrow>
          (case staleNetworkControllers env allControllers switches routers of
             (stale, effs) \<Rightarrow> (None, effs @ cleanupAll env stale)))"

section \<open>Starting the manager\<close>

text \<open>
  \<open>wait.PollImmediate(interval, timeout, condition)\<close> belongs to the Kubernetes client
  library: it tries the condition at once and then once per interval, until the
  condition returns true (the result is nil), returns an error (the result is that
  error), or the timeout has passed (the result is the library's timeout error). The
  argument \<open>tries\<close> is the number of polls after the first that fit into the timeout.
\<close>

fun pollLoop :: "nat \<Rightarrow> (nat \<Rightarrow> string + bool) \<Rightarrow> nat \<Rightarrow> string option" where
  "pollLoop 0 cond n = Some ''timed out waiting for the condition''"
| "pollLoop (Suc k) cond n =
     (case cond n of
        Inl err \<Rightarrow> Some err
      | Inr done \<Rightarrow> if done then None else pollLoop k cond (Suc n))"

definition PollImmediate :: "nat \<Rightarrow> (nat \<Rightarrow> string + bool) \<Rightarrow> string option" where
  "PollImmediate tries cond = pollLoop (Suc tries) cond 0"

text \<open>The condition closure of \<open>Start\<close>, at its call number \<open>n\<close>.\<close>

definition zoneCondition :: "mgr_env \<Rightarrow> nat \<Rightarrow> string + bool" where
  "zoneCondition env n =
     (case GetNBZone env n of
        Inl err \<Rightarrow> Inl (''error getting the zone name from the OVN Northbound db : '' @ err)
      | Inr zone \<Rightarrow>
          if cfgZone env \<noteq> zone
          then Inl (''network controller manager zone '' @ cfgZone env
                    @ '' mismatch with the Northbound db zone '' @ zone)
          else Inr True)"

definition configureSCTPSupport ::
  "mgr_env \<Rightarrow> networkControllerManager \<Rightarrow> string + (networkControllerManager \<times> mgr_effect list)" where
  "configureSCTPSupport env cm =
     (case DetectSCTPSupport env of
        Inl err \<Rightarrow> Inl err
      | Inr hasSCTPSupport \<Rightarrow>
          Inr (cm\<lparr>SCTPSupport := hasSCTPSupport\<rparr>,
               [if \<not> hasSCTPSupport
                then Log_Warning ''SCTP unsupported by this version of OVN. Kubernetes service creation with SCTP will not work ''
                else Log_Info ''SCTP support detected in OVN'']))"

definition configureSvcTemplateSupport ::
  "mgr_env \<Rightarrow> networkControllerManager \<Rightarrow> networkControllerManager \<times> mgr_effect list" where
  "configureSvcTemplateSupport env cm =
     (if RunOVNNbctl_fails env
      then (cm\<lparr>svcTemplateSupport := False\<rparr>,
            [Log_Warning ''Version of OVN in use does not support Chassis_Template_Var. Disabling Templates Support''])
      else (cm\<lparr>svcTemplateSupport := True\<rparr>, []))"

definition createACLLoggingMeter :: "mgr_env \<Rightarrow> string option \<times> mgr_effect list" where
  "createACLLoggingMeter env =
     (case CreateMeterBandOps env of
        Some err \<Rightarrow> (Some (''can't create meter band '' @ fmtBand env @ '': '' @ err), [])
      | None \<Rightarrow>
         (case CreateOrUpdateMeterOps env of
            Some err \<Rightarrow> (Some (''can't create meter '' @ fmtMeter env @ '': '' @ err), [])
          | None \<Rightarrow>
             (case TransactAndCheck env of
                Some err \<Rightarrow> (Some (''can't transact ACL logging meter: '' @ err), [Call_Transact])
              | None \<Rightarrow> (None, [Call_Transact]))))"

definition initDefaultNetworkController ::
  "mgr_env \<Rightarrow> networkControllerManager \<Rightarrow> string + networkControllerManager" where
  "initDefaultNetworkController env cm =
     (case NewDefaultNetworkController env of
        Some err \<Rightarrow> Inl err
      | None \<Rightarrow> Inr (cm\<lparr>hasDefaultNetworkController := True\<rparr>))"

text \<open>
  \<open>Start\<close> returns its error, the manager after the call and the effects. The variable
  \<open>zone\<close> declared before the poll is never assigned: the closure declares a variable
  of its own with \<open>zone, err := util.GetNBZone(...)\<close>. So it is still the empty string
  where the error of the poll is wrapped.
\<close>

definition Start ::
  "mgr_env \<Rightarrow> networkControllerManager
     \<Rightarrow> string option \<times> networkControllerManager \<times> mgr_effect list" where
  "Start env cm =
     (let effs0 = [Log_Info ''Starting the network controller manager''];
          zone = []
      in
      case PollImmediate (pollTries env) (zoneCondition env) of
        Some err \<Rightarrow>
          (Some (''failed to start default network controller - OVN Nortboubd db zone '' @ zone
                 @ '' doesn't match with the configured zone '' @ cfgZone env
                 @ '' : err - '' @ err),
           cm, effs0)
      | None \<Rightarrow>
         (let effs1 = effs0 @ [Call_configureMetrics] in
          case configureSCTPSupport env cm of
            Inl err \<Rightarrow> (Some err, cm, effs1)
          | Inr (cm1, l1) \<Rightarrow>
             (case configureSvcTemplateSupport env cm1 of
                (cm2, l2) \<Rightarrow>
                 (case createACLLoggingMeter env of
                    (merr, l3) \<Rightarrow>
                     (let effs2 = effs1 @ l1 @ l2 @ l3 in
                      if merr \<noteq> None then (None, cm2, effs2)
                      else
                        (let effs3 = effs2
                               @ (if enableConfigDuration env
                                  then [Call_ConfigDurationRecorder_Run] else [])
                               @ [Call_PodRecorder_Run, Call_WatchFactory_Start]
                         in
                         case WatchFactory_Start env of
                           Some err \<Rightarrow> (Some err, cm2, effs3)
                         | None \<Rightarrow>
                            (case initDefaultNetworkController env cm2 of
                               Inl err \<Rightarrow>
                                 (Some (''failed to init default network controller: '' @ err),
                                  cm2, effs3 @ [Call_NewDefaultNetworkController])
                             | Inr cm3 \<Rightarrow>
                                (let effs4 = effs3 @ [Call_NewDefaultNetworkController,
                                                      Call_DefaultNetworkController_Start]
                                 in
                                 case DefaultNetworkController_Start env of
                                   Some err \<Rightarrow>
                                     (Some (''failed to start default network controller: '' @ err),
                                      cm3, effs4)
                                 | None \<Rightarrow>
                                    (case nadController env of
                                       None \<Rightarrow> (None, cm3, effs4)
                                     | Some r \<Rightarrow>
                                         (r, cm3, effs4 @ [Call_NadController_Start]))))))))))"

section \<open>Notions used to state the properties\<close>

text \<open>
  The handler addresses held by the informer, over all priorities; that handler \<open>h\<close>
  is registered under priority \<open>p\<close>; that every call on handler \<open>a\<close> in a list of
  effects comes before every call on handler \<open>b\<close>; and the calls a list of effects
  makes on one handler.
\<close>

definition handlerRefs :: "informer \<Rightarrow> href list" where
  "handlerRefs i = concat (map (\<lambda>(p, m). map snd m) (handlers i))"

definition registered :: "informer \<Rightarrow> int \<Rightarrow> href \<Rightarrow> bool" where
  "registered i p h = (h \<in> snd ` set (handlersAt i p))"


definition callsOn :: "effect list \<Rightarrow> href \<Rightarrow> effect list" where
  "callsOn effs h = filter (\<lambda>c. callee c = Some h) effs"

text \<open>The calls of \<open>Cleanup\<close> among the effects of the manager.\<close>

fun isCleanupCall :: "mgr_effect \<Rightarrow> bool" where
  "isCleanupCall (Call_Cleanup oc n) = True"
| "isCleanupCall (Log_Info m) = False"
| "isCleanupCall (Log_Warning m) = False"
| "isCleanupCall (Log_Error m) = False"
| "isCleanupCall Call_configureMetrics = False"
| "isCleanupCall Call_Transact = False"
| "isCleanupCall Call_ConfigDurationRecorder_Run = False"
| "isCleanupCall Call_PodRecorder_Run = False"
| "isCleanupCall Call_WatchFactory_Start = False"
| "isCleanupCall Call_NewDefaultNetworkController = False"
| "isCleanupCall Call_DefaultNetworkController_Start = False"
| "isCleanupCall Call_NadController_Start = False"

section \<open>Concrete runs\<close>

text \<open>
  A run of the manager in which every call succeeds: the database reports the configured
  zone \<open>z1\<close>, and the database holds a layer-3 switch of the vanished network
  \<open>netA\<close>, a router of the vanished network \<open>netB\<close> and a switch of the running
  network \<open>netC\<close>; the cleanup of \<open>netA\<close> fails.
\<close>

definition okEnv :: mgr_env where
  "okEnv =
     \<lparr>cfgZone = ''z1'',
      enableConfigDuration = False,
      pollTries = 600,
      GetNBZone = (\<lambda>n. Inr ''z1''),
      DetectSCTPSupport = Inr True,
      RunOVNNbctl_fails = False,
      CreateMeterBandOps = None,
      CreateOrUpdateMeterOps = None,
      TransactAndCheck = None,
      WatchFactory_Start = None,
      NewCommonNetworkControllerInfo = None,
      NewDefaultNetworkController = None,
      DefaultNetworkController_Start = None,
      nadController = Some None,
      lsRows = Inr [[''network'' \<mapsto> ''netA'', ''topology'' \<mapsto> ''layer3''],
                    [''network'' \<mapsto> ''netC'', ''topology'' \<mapsto> ''layer2'']],
      lrRows = Inr [[''network'' \<mapsto> ''netB'', ''topology'' \<mapsto> ''layer3'']],
      Cleanup = (\<lambda>oc n. if n = ''netA'' then Some ''transaction failed'' else None),
      fmtBand = ''band'',
      fmtMeter = ''meter''\<rparr>"

text \<open>The same run, except that the transaction creating the logging meter fails.\<close>

definition meterFailsEnv :: mgr_env where
  "meterFailsEnv = okEnv\<lparr>TransactAndCheck := Some ''transaction failed''\<rparr>"

text \<open>The same run, except that the database reports the zone \<open>z2\<close>.\<close>

definition zoneMismatchEnv :: mgr_env where
  "zoneMismatchEnv = okEnv\<lparr>GetNBZone := (\<lambda>n. Inr ''z2'')\<rparr>"

definition newManager :: networkControllerManager where
  "newManager = \<lparr>SCTPSupport = False, svcTemplateSupport = False, hasDefaultNetworkController = False\<rparr>"

text \<open>
  Values for the constants that the sources do not give, used in concrete runs: two
  distinct liveness values and five priority levels.
\<close>

definition exampleConsts :: factory_consts where
  "exampleConsts = \<lparr>handlerAlive = 0, handlerDead = 1, minHandlerPriority = 4\<rparr>"

definition deadHandler :: Handler where
  "deadHandler = \<lparr>base = 7, hid = 1, tombstone = 1, priority = 0\<rparr>"

definition aliveHandler :: Handler where
  "aliveHandler = \<lparr>base = 8, hid = 2, tombstone = 0, priority = 0\<rparr>"

text \<open>
  Objects and informers for concrete runs: a pod, the pod that replaces it under the
  same name with another UID, a service, and a pod informer with one handler at priority
  0 (address 10) and one at priority 1 (address 11).
\<close>

definition podType :: rtype where
  "podType = ResourceType ''*v1.Pod''"

definition examplePod :: object where
  "examplePod = Resource ''*v1.Pod'' ''default'' ''p1'' ''uid-1''"

definition replacedPod :: object where
  "replacedPod = Resource ''*v1.Pod'' ''default'' ''p1'' ''uid-2''"

definition exampleService :: object where
  "exampleService = Resource ''*v1.Service'' ''default'' ''s1'' ''uid-9''"

definition twoHandlers :: informer where
  "twoHandlers = (newInformer podType)\<lparr>handlers := [(0, [(1, 10)]), (1, [(2, 11)])]\<rparr>"







text \<open>
  The invariant of a queue map in use, in five parts. \<open>shape\<close>: there are \<open>N\<close>
  queues and \<open>N\<close> workers, and no channel holds more than its capacity. \<open>linked\<close>:
  every event in flight holds a non-nil entry, and it is the entry that the map has
  under the event's key. \<open>counted\<close>: the refcount of the entry of a key is the number
  of events in flight for that key, and every entry of the map has been allocated.
  \<open>unshared\<close>: two keys never share an entry. \<open>history\<close>: a key without an entry did
  not see a non-delete event complete last, and a key with an entry and no event in
  flight did.
\<close>

definition shape :: "nat \<Rightarrow> qsys \<Rightarrow> bool" where
  "shape N s \<longleftrightarrow>
     length (queues (qmap s)) = N \<and> length (workers s) = N
     \<and> (\<forall>q \<in> set (queues (qmap s)). length q \<le> chanCap)"

definition linked :: "qsys \<Rightarrow> bool" where
  "linked s \<longleftrightarrow>
     (\<forall>e. e \<in># inflight s \<longrightarrow>
        rel_entry e \<noteq> None \<and> entries (qmap s) (rel_key e) = rel_entry e)"

definition counted :: "qsys \<Rightarrow> bool" where
  "counted s \<longleftrightarrow>
     (\<forall>k a. entries (qmap s) k = Some a \<longrightarrow>
        a < nextEntry (qmap s)
        \<and> refcount (entryStore (qmap s) a) = of_nat (size (inflightFor s k)))"

definition unshared :: "qsys \<Rightarrow> bool" where
  "unshared s \<longleftrightarrow>
     (\<forall>k k' a. entries (qmap s) k = Some a \<and> entries (qmap s) k' = Some a \<longrightarrow> k = k')"

definition history :: "qsys \<Rightarrow> bool" where
  "history s \<longleftrightarrow>
     (\<forall>k. (entries (qmap s) k = None \<longrightarrow> lastCompleted s k \<noteq> Some False)
        \<and> (entries (qmap s) k \<noteq> None \<and> inflightFor s k = {#} \<longrightarrow>
             lastCompleted s k = Some False))"

definition qinv :: "nat \<Rightarrow> qsys \<Rightarrow> bool" where
  "qinv N s \<longleftrightarrow> shape N s \<and> linked s \<and> counted s \<and> unshared s \<and> history s"

text \<open>
  A run on two queues: an add event for the pod is enqueued, sent, received and
  finished by worker 0, then a delete event for the same pod likewise.
\<close>

definition addThenDelete :: "action list" where
  "addThenDelete =
     [DoEnqueue NilObj examplePod False ProcAdd 5, DoSend, DoReceive 0, DoFinish 0,
      DoEnqueue NilObj examplePod True ProcDelete 5, DoSend, DoReceive 0, DoFinish 0]"

section \<open>Handler liveness\<close>

text \<open>
  C7. The liveness flag of a handler moves only from alive to dead: \<open>kill\<close> succeeds
  exactly when the flag is alive, it leaves the flag as it was or moves it from alive to
  dead, and a second \<open>kill\<close> never succeeds. On a handler whose flag is dead, \<open>OnAdd\<close>,
  \<open>OnUpdate\<close> and \<open>OnDelete\<close> call none of the underlying callbacks. The same holds
  through \<open>removeHandler\<close>: it changes the flag of the handler only from alive to
  dead, and after it no call on that handler (whose flag was alive or dead before)
  reaches a callback.
\<close>

theorem handler_liveness:
  assumes "handlerAlive K \<noteq> handlerDead K"
  shows "(fst (kill K h) \<longleftrightarrow> tombstone h = handlerAlive K)
    \<and> (tombstone (snd (kill K h)) = tombstone h
         \<or> tombstone h = handlerAlive K \<and> tombstone (snd (kill K h)) = handlerDead K)
    \<and> \<not> fst (kill K (snd (kill K h)))
    \<and> (tombstone h = handlerDead K \<longrightarrow>
          snd (kill K h) = h \<and> OnAdd K h ob = [] \<and> OnUpdate K h oldOb ob = []
          \<and> OnDelete K h ob = [])
    \<and> (tombstone (fst (removeHandler K i hs a) a) = tombstone (hs a)
         \<or> tombstone (hs a) = handlerAlive K
            \<and> tombstone (fst (removeHandler K i hs a) a) = handlerDead K)
    \<and> (tombstone (hs a) = handlerAlive K \<or> tombstone (hs a) = handlerDead K \<longrightarrow>
          (\<forall>c. callee c = Some a \<longrightarrow> deliver K (fst (removeHandler K i hs a)) c = []))"
proof -
  have dead_silent: "deliver K hs' c = []"
    if "callee c = Some a" and "tombstone (hs' a) = handlerDead K" for hs' c
    using that assms by (cases c) (auto simp: OnAdd_def OnUpdate_def OnDelete_def)
  have after: "tombstone (fst (removeHandler K i hs a) a) = handlerDead K"
    if "tombstone (hs a) = handlerAlive K \<or> tombstone (hs a) = handlerDead K"
    using that by (auto simp: removeHandler_def kill_def)
  have 1: "fst (kill K h) \<longleftrightarrow> tombstone h = handlerAlive K"
    by (simp add: kill_def)
  have 2: "tombstone (snd (kill K h)) = tombstone h
         \<or> tombstone h = handlerAlive K \<and> tombstone (snd (kill K h)) = handlerDead K"
    by (simp add: kill_def)
  have 3: "\<not> fst (kill K (snd (kill K h)))"
    using assms by (simp add: kill_def)
  have 4: "tombstone h = handlerDead K \<longrightarrow>
          snd (kill K h) = h \<and> OnAdd K h ob = [] \<and> OnUpdate K h oldOb ob = []
          \<and> OnDelete K h ob = []"
    using assms by (auto simp: kill_def OnAdd_def OnUpdate_def OnDelete_def)
  have 5: "tombstone (fst (removeHandler K i hs a) a) = tombstone (hs a)
         \<or> tombstone (hs a) = handlerAlive K
            \<and> tombstone (fst (removeHandler K i hs a) a) = handlerDead K"
    by (simp add: removeHandler_def kill_def)
  have 6: "tombstone (hs a) = handlerAlive K \<or> tombstone (hs a) = handlerDead K \<longrightarrow>
          (\<forall>c. callee c = Some a \<longrightarrow> deliver K (fst (removeHandler K i hs a)) c = [])"
    using dead_silent after by blast
  from 1 2 3 4 5 6 show ?thesis by blast
qed

theorem handler_liveness_witness:
  "handlerAlive exampleConsts \<noteq> handlerDead exampleConsts
   \<and> tombstone deadHandler = handlerDead exampleConsts
   \<and> \<not> fst (kill exampleConsts deadHandler)
   \<and> OnAdd exampleConsts deadHandler NilObj = []
   \<and> OnUpdate exampleConsts deadHandler NilObj NilObj = []
   \<and> OnDelete exampleConsts deadHandler NilObj = []
   \<and> tombstone (fst (removeHandler exampleConsts (newInformer NilType) (\<lambda>a. aliveHandler) 0) 0)
       = handlerDead exampleConsts
   \<and> deliver exampleConsts (fst (removeHandler exampleConsts (newInformer NilType) (\<lambda>a. aliveHandler) 0))
       (Call_OnAdd 0 NilObj) = []"
proof -
  have ne: "handlerAlive exampleConsts \<noteq> handlerDead exampleConsts"
    by (simp add: exampleConsts_def)
  have alive: "tombstone aliveHandler = handlerAlive exampleConsts"
    by (simp add: aliveHandler_def exampleConsts_def)
  have dead: "tombstone deadHandler = handlerDead exampleConsts"
    by (simp add: deadHandler_def exampleConsts_def)
  show ?thesis
    using handler_liveness [OF ne, of deadHandler NilObj NilObj "newInformer NilType"
        "\<lambda>a. aliveHandler" 0] ne alive dead
    by (simp add: removeHandler_def kill_def OnAdd_def)
qed

section \<open>Starting the manager: the zone check and the logging meter\<close>

lemma PollImmediate_first:
  "PollImmediate tries cond =
     (case cond 0 of
        Inl err \<Rightarrow> Some err
      | Inr d \<Rightarrow> if d then None else pollLoop tries cond (Suc 0))"
  by (simp add: PollImmediate_def)

text \<open>
  C2. When the zone that the northbound database reports differs from the configured
  zone, \<open>Start\<close> fails, and its error names both zones: the observed zone and the
  configured zone both occur in the message. (The condition of the poll returns an
  error on a mismatch, so the poll ends at its first try; the observed zone reaches the
  message through the wrapped error of the condition, the configured zone occurs twice.)
\<close>

theorem Start_zone_mismatch_names_both_zones:
  assumes "GetNBZone env 0 = Inr z" and "z \<noteq> cfgZone env"
  shows "fst (Start env cm) =
           Some (''failed to start default network controller - OVN Nortboubd db zone ''
                 @ '' doesn't match with the configured zone '' @ cfgZone env
                 @ '' : err - '' @ ''network controller manager zone '' @ cfgZone env
                 @ '' mismatch with the Northbound db zone '' @ z)
     \<and> (\<exists>msg. fst (Start env cm) = Some msg \<and> sublist z msg \<and> sublist (cfgZone env) msg)"
proof -
  define pre where
    "pre = ''failed to start default network controller - OVN Nortboubd db zone ''
           @ '' doesn't match with the configured zone ''"
  define mid where "mid = '' : err - '' @ ''network controller manager zone ''"
  define post where "post = '' mismatch with the Northbound db zone ''"
  have cond: "zoneCondition env 0 = Inl (''network controller manager zone '' @ cfgZone env @ post @ z)"
    using assms by (auto simp: zoneCondition_def post_def)
  have poll: "PollImmediate (pollTries env) (zoneCondition env)
                = Some (''network controller manager zone '' @ cfgZone env @ post @ z)"
    by (simp add: PollImmediate_first cond)
  have st: "fst (Start env cm) = Some (pre @ cfgZone env @ mid @ cfgZone env @ post @ z)"
    unfolding Start_def pre_def mid_def by (simp add: poll)
  have "sublist (cfgZone env) (pre @ cfgZone env @ (mid @ cfgZone env @ post @ z))"
    by (rule sublist_appendI)
  moreover have "sublist z ((pre @ cfgZone env @ mid @ cfgZone env @ post) @ z)"
    by (rule sublist_append_leftI)
  ultimately have "\<exists>msg. fst (Start env cm) = Some msg \<and> sublist z msg \<and> sublist (cfgZone env) msg"
    using st by simp
  moreover have "fst (Start env cm) =
           Some (''failed to start default network controller - OVN Nortboubd db zone ''
                 @ '' doesn't match with the configured zone '' @ cfgZone env
                 @ '' : err - '' @ ''network controller manager zone '' @ cfgZone env
                 @ '' mismatch with the Northbound db zone '' @ z)"
    using st by (simp add: pre_def mid_def post_def)
  ultimately show ?thesis by blast
qed

theorem Start_zone_mismatch_names_both_zones_witness:
  "GetNBZone zoneMismatchEnv 0 = Inr ''z2'' \<and> ''z2'' \<noteq> cfgZone zoneMismatchEnv
   \<and> cfgZone zoneMismatchEnv = ''z1''
   \<and> fst (Start zoneMismatchEnv newManager) =
        Some ''failed to start default network controller - OVN Nortboubd db zone  doesn't match with the configured zone z1 : err - network controller manager zone z1 mismatch with the Northbound db zone z2''"
proof -
  have a: "GetNBZone zoneMismatchEnv 0 = Inr ''z2''"
    by (simp add: zoneMismatchEnv_def)
  have b: "''z2'' \<noteq> cfgZone zoneMismatchEnv"
    by (simp add: zoneMismatchEnv_def okEnv_def)
  have c: "cfgZone zoneMismatchEnv = ''z1''"
    by (simp add: zoneMismatchEnv_def okEnv_def)
  show ?thesis
    using Start_zone_mismatch_names_both_zones [OF a b, of newManager] a b c by simp
qed

text \<open>
  C1, at a run in which only the transaction that creates the logging meter fails:
  \<open>Start\<close> returns nil straight after the failed creation. It writes no log line about
  the failure, and it runs none of the remaining steps: the pod recorder, the watch
  factory, the default network controller and the NAD controller are never started,
  although all of them are started in the same run with a successful meter creation.
\<close>

theorem Start_returns_nil_after_meter_failure:
  "Start meterFailsEnv newManager =
     (None,
      newManager\<lparr>SCTPSupport := True, svcTemplateSupport := True\<rparr>,
      [Log_Info ''Starting the network controller manager'', Call_configureMetrics,
       Log_Info ''SCTP support detected in OVN'', Call_Transact])
   \<and> Start okEnv newManager =
     (None,
      newManager\<lparr>SCTPSupport := True, svcTemplateSupport := True,
                 hasDefaultNetworkController := True\<rparr>,
      [Log_Info ''Starting the network controller manager'', Call_configureMetrics,
       Log_Info ''SCTP support detected in OVN'', Call_Transact,
       Call_PodRecorder_Run, Call_WatchFactory_Start, Call_NewDefaultNetworkController,
       Call_DefaultNetworkController_Start, Call_NadController_Start])"
  by (simp add: Start_def meterFailsEnv_def okEnv_def newManager_def PollImmediate_first
      zoneCondition_def configureSCTPSupport_def configureSvcTemplateSupport_def
      createACLLoggingMeter_def initDefaultNetworkController_def Let_def)


section \<open>Cleaning up after deleted networks\<close>

lemma collectStale_mono:
  "n \<in> fst ` set (fst acc) \<Longrightarrow> n \<in> fst ` set (fst (collectStale env ex rows acc))"
proof (induction rows arbitrary: acc)
  case Nil
  then show ?case by simp
next
  case (Cons row rows)
  obtain stale effs where acc: "acc = (stale, effs)" by (cases acc)
  have n: "n \<in> fst ` set stale" using Cons.prems by (simp add: acc)
  have keep: "\<And>e. n \<in> fst ` set (fst (collectStale env ex rows (stale, e)))"
    by (rule Cons.IH) (simp add: n)
  have upd: "\<And>k v e. n \<in> fst ` set (fst (collectStale env ex rows (AList.update k v stale, e)))"
    by (rule Cons.IH) (simp add: n dom_update)
  show ?case unfolding acc
    by (simp add: Let_def keep upd split: sum.splits)
qed

lemma collectStale_row:
  "row \<in> set rows \<Longrightarrow> index row NetworkExternalID = n \<Longrightarrow> n \<notin> set ex \<Longrightarrow>
   newDummyNetworkController env (index row TopologyExternalID) n = Inr oc \<Longrightarrow>
   n \<in> fst ` set (fst (collectStale env ex rows acc))"
proof (induction rows arbitrary: acc)
  case Nil
  then show ?case by simp
next
  case (Cons r rows)
  obtain stale effs where acc: "acc = (stale, effs)" by (cases acc)
  show ?case
  proof (cases "r = row")
    case True
    have "n \<in> fst ` set (AList.update n oc stale)" by (simp add: dom_update)
    then show ?thesis
      using Cons.prems True unfolding acc
      by (simp add: Let_def collectStale_mono)
  next
    case False
    then have "row \<in> set rows" using Cons.prems by simp
    then have ih: "\<And>acc. n \<in> fst ` set (fst (collectStale env ex rows acc))"
      using Cons.IH Cons.prems by blast
    show ?thesis unfolding acc
      by (simp add: Let_def ih split: sum.splits)
  qed
qed

lemma collectStale_ignores_Cleanup:
  "collectStale (env\<lparr>Cleanup := c\<rparr>) ex rows acc = collectStale env ex rows acc"
proof (induction rows arbitrary: acc)
  case Nil
  then show ?case by simp
next
  case (Cons r rows)
  obtain stale effs where acc: "acc = (stale, effs)" by (cases acc)
  show ?case unfolding acc
    by (simp add: Let_def newDummyNetworkController_def Cons.IH split: sum.splits)
qed

lemma cleanupAll_calls:
  "(n, oc) \<in> set st \<Longrightarrow> Call_Cleanup oc n \<in> set (cleanupAll env st)"
  by (induction env st rule: cleanupAll.induct) auto

lemma cleanupAll_logs:
  "(n, oc) \<in> set st \<Longrightarrow> Cleanup env oc n = Some err \<Longrightarrow>
   Log_Error (''Failed to delete stale OVN logical entities for network '' @ n @ '': '' @ err)
     \<in> set (cleanupAll env st)"
  by (induction env st rule: cleanupAll.induct) auto

lemma cleanupAll_calls_eq:
  "filter isCleanupCall (cleanupAll env st) = map (\<lambda>(n, oc). Call_Cleanup oc n) st"
  by (induction st) (auto split: option.splits)

text \<open>
  C9. Let the database queries of \<open>CleanupDeletedNetworks\<close> succeed, and let
  \<open>netName\<close> be a stale network: some logical switch or router carries it as its
  network external id, no running controller has that name, and the dummy controller
  for that row could be created. Then, whatever the \<open>Cleanup\<close> calls of this and of the
  other stale networks return, \<open>CleanupDeletedNetworks\<close> returns nil, \<open>Cleanup\<close> is
  called for \<open>netName\<close>, a failure of that call is logged as an error, and the
  sequence of \<open>Cleanup\<close> calls is the same as in a run where no \<open>Cleanup\<close> fails.
\<close>

theorem CleanupDeletedNetworks_tolerates_failures:
  assumes ls: "lsRows env = Inr ls" and lr: "lrRows env = Inr lr"
      and row: "row \<in> set ls \<union> set lr"
      and net: "row NetworkExternalID = Some netName"
      and stale: "netName \<notin> GetNetworkName ` set allControllers"
      and dummy: "newDummyNetworkController env (index row TopologyExternalID) netName = Inr oc"
  shows "fst (CleanupDeletedNetworks env allControllers) = None
     \<and> (\<exists>oc'. Call_Cleanup oc' netName \<in> set (snd (CleanupDeletedNetworks env allControllers))
           \<and> (\<forall>err. Cleanup env oc' netName = Some err \<longrightarrow>
                 Log_Error (''Failed to delete stale OVN logical entities for network ''
                              @ netName @ '': '' @ err)
                   \<in> set (snd (CleanupDeletedNetworks env allControllers))))
     \<and> filter isCleanupCall (snd (CleanupDeletedNetworks env allControllers))
         = filter isCleanupCall
             (snd (CleanupDeletedNetworks (env\<lparr>Cleanup := (\<lambda>oc n. None)\<rparr>) allControllers))"
proof -
  define ex where "ex = map GetNetworkName allControllers"
  define p where "p = (\<lambda>item :: string \<rightharpoonup> string. item NetworkExternalID \<noteq> None)"
  define sw where "sw = filter p ls"
  define ro where "ro = filter p lr"
  define env' where "env' = env\<lparr>Cleanup := (\<lambda>oc n. None)\<rparr>"
  have find: "findAllSecondaryNetworkLogicalEntities env = Inr (sw, ro)"
    by (simp add: findAllSecondaryNetworkLogicalEntities_def FindWithPredicate_def
        ls lr sw_def ro_def p_def)
  have find': "findAllSecondaryNetworkLogicalEntities env' = Inr (sw, ro)"
    by (simp add: findAllSecondaryNetworkLogicalEntities_def FindWithPredicate_def
        ls lr sw_def ro_def p_def env'_def)
  obtain st effs where st: "staleNetworkControllers env allControllers sw ro = (st, effs)"
    by (cases "staleNetworkControllers env allControllers sw ro")
  have st': "staleNetworkControllers env' allControllers sw ro = (st, effs)"
    using st by (simp add: staleNetworkControllers_def collectStale_ignores_Cleanup env'_def)
  have res: "CleanupDeletedNetworks env allControllers = (None, effs @ cleanupAll env st)"
    by (simp add: CleanupDeletedNetworks_def find st)
  have res': "CleanupDeletedNetworks env' allControllers = (None, effs @ cleanupAll env' st)"
    by (simp add: CleanupDeletedNetworks_def find' st')
  have idx: "index row NetworkExternalID = netName" by (simp add: index_def net)
  have notex: "netName \<notin> set ex" using stale by (simp add: ex_def)
  have "row \<in> set sw \<union> set ro" using row net by (auto simp: sw_def ro_def p_def)
  then have "netName \<in> fst ` set st"
  proof
    assume "row \<in> set sw"
    from collectStale_row [OF this idx notex dummy]
    have "netName \<in> fst ` set (fst (collectStale env ex sw ([], [])))" .
    then have "netName \<in> fst ` set (fst (collectStale env ex ro (collectStale env ex sw ([], []))))"
      by (rule collectStale_mono)
    then show ?thesis using st by (simp add: staleNetworkControllers_def ex_def)
  next
    assume "row \<in> set ro"
    from collectStale_row [OF this idx notex dummy]
    have "netName \<in> fst ` set (fst (collectStale env ex ro (collectStale env ex sw ([], []))))" .
    then show ?thesis using st by (simp add: staleNetworkControllers_def ex_def)
  qed
  then obtain oc' where mem: "(netName, oc') \<in> set st" by auto
  have called: "Call_Cleanup oc' netName \<in> set (snd (CleanupDeletedNetworks env allControllers))"
    using cleanupAll_calls [OF mem] by (simp add: res)
  have logged: "\<forall>err. Cleanup env oc' netName = Some err \<longrightarrow>
                 Log_Error (''Failed to delete stale OVN logical entities for network ''
                              @ netName @ '': '' @ err)
                   \<in> set (snd (CleanupDeletedNetworks env allControllers))"
    using cleanupAll_logs [OF mem] by (simp add: res)
  have same: "filter isCleanupCall (snd (CleanupDeletedNetworks env allControllers))
         = filter isCleanupCall (snd (CleanupDeletedNetworks env' allControllers))"
    by (simp add: res res' cleanupAll_calls_eq)
  show ?thesis using called logged same res unfolding env'_def by auto
qed

theorem CleanupDeletedNetworks_tolerates_failures_witness:
  "Cleanup okEnv (SecondaryLayer3NetworkController ''netA'') ''netA'' = Some ''transaction failed''
   \<and> fst (CleanupDeletedNetworks okEnv [SecondaryLayer2NetworkController ''netC'']) = None
   \<and> (\<exists>oc'. Call_Cleanup oc' ''netB''
         \<in> set (snd (CleanupDeletedNetworks okEnv [SecondaryLayer2NetworkController ''netC''])))"
proof -
  define ls where "ls = [[''network'' \<mapsto> ''netA'', ''topology'' \<mapsto> ''layer3''],
                         [''network'' \<mapsto> ''netC'', ''topology'' \<mapsto> ''layer2'']]"
  define lr where "lr = [[''network'' \<mapsto> ''netB'', ''topology'' \<mapsto> ''layer3'']]"
  define row where "row = [''network'' \<mapsto> ''netB'', ''topology'' \<mapsto> ''layer3'']"
  have a: "lsRows okEnv = Inr ls" by (simp add: okEnv_def ls_def)
  have b: "lrRows okEnv = Inr lr" by (simp add: okEnv_def lr_def)
  have c: "row \<in> set ls \<union> set lr" by (simp add: lr_def row_def)
  have d: "row NetworkExternalID = Some ''netB''" by (simp add: row_def NetworkExternalID_def)
  have e: "''netB'' \<notin> GetNetworkName ` set [SecondaryLayer2NetworkController ''netC'']"
    by (simp add: GetNetworkName_def)
  have f: "newDummyNetworkController okEnv (index row TopologyExternalID) ''netB''
             = Inr (SecondaryLayer3NetworkController ''netB'')"
    by (simp add: newDummyNetworkController_def okEnv_def index_def row_def
        TopologyExternalID_def Layer3Topology_def)
  have g: "Cleanup okEnv (SecondaryLayer3NetworkController ''netA'') ''netA'' = Some ''transaction failed''"
    by (simp add: okEnv_def)
  show ?thesis
    using CleanupDeletedNetworks_tolerates_failures [OF a b c d e f] g by blast
qed


section \<open>Choosing a queue\<close>

lemma unat_of_nat_32: "L < 2 ^ 32 \<Longrightarrow> unat (of_nat L :: 32 word) = L"
  by (simp add: unat_of_nat)

lemma uint_minus_one_32: "uint (- 1 :: 32 word) \<noteq> 0"
  by (simp add: uint_0_iff)

lemma tryQueue_in_range: "(j :: 32 word) < n \<Longrightarrow> unat ((s + j) mod n) < unat n"
  by (metis add_0 add_lessD1 mod_less_divisor unat_mod word_less_nat_alt)

lemma getNewQueueNum_loop_in_range:
  "length qs = unat n \<Longrightarrow> unat queueIdx < unat n \<Longrightarrow>
   \<exists>idx. getNewQueueNum_loop qs n startIdx j lowestNum queueIdx = Inr idx \<and> unat idx < unat n"
proof (induction qs n startIdx j lowestNum queueIdx rule: getNewQueueNum_loop.induct)
  case (1 qs n startIdx j lowestNum queueIdx)
  show ?case
  proof (cases "j < n")
    case False
    then show ?thesis
      using "1.prems" by (subst getNewQueueNum_loop.simps) simp
  next
    case True
    define tryQueue where "tryQueue = (startIdx + j) mod n"
    have tq: "unat tryQueue < unat n"
      unfolding tryQueue_def using True by (rule tryQueue_in_range)
    then have inr: "\<not> length qs \<le> unat tryQueue" using "1.prems"(1) by simp
    show ?thesis
    proof (cases "length (qs ! unat tryQueue) < lowestNum")
      case lower: True
      from "1.IH"(1) [OF True tryQueue_def inr refl lower "1.prems"(1) tq]
      show ?thesis
        using True inr lower
        by (subst getNewQueueNum_loop.simps) (simp add: Let_def tryQueue_def)
    next
      case notlower: False
      from "1.IH"(2) [OF True tryQueue_def inr refl notlower "1.prems"]
      show ?thesis
        using True inr notlower
        by (subst getNewQueueNum_loop.simps) (simp add: Let_def tryQueue_def)
    qed
  qed
qed

text \<open>
  C10. \<open>getNewQueueNum\<close> needs at least two queues. With two or more queues the
  argument of \<open>Intn\<close> is the number of queues minus one, so the start index lies
  between 0 and the number of queues minus two (the last queue is never the start), and
  the call returns an index below the number of queues. With exactly one queue the
  argument of \<open>Intn\<close> is 0 and the call panics; with no queue the first indexing
  panics. (The slice of queues is made with a \<open>uint32\<close> length, hence the bound.)
\<close>

theorem getNewQueueNum_needs_two_queues:
  assumes len: "length (queues qm) < 2 ^ 32"
  shows "(length (queues qm) = 0 \<longrightarrow> getNewQueueNum qm seed = Inl IndexOutOfRangePanic)
     \<and> (length (queues qm) = 1 \<longrightarrow> getNewQueueNum qm seed = Inl IntnPanic)
     \<and> (2 \<le> length (queues qm) \<longrightarrow>
          (\<exists>r. Intn seed (uint ((of_nat (length (queues qm)) :: 32 word) - 1)) = Some r
                \<and> 0 \<le> r \<and> r \<le> int (length (queues qm)) - 2)
        \<and> (\<exists>idx. getNewQueueNum qm seed = Inr idx \<and> unat idx < length (queues qm)))"
proof (intro conjI impI)
  assume "length (queues qm) = 0"
  then show "getNewQueueNum qm seed = Inl IndexOutOfRangePanic"
    by (simp add: getNewQueueNum_def Intn_def Let_def uint_minus_one_32)
next
  assume "length (queues qm) = 1"
  then show "getNewQueueNum qm seed = Inl IntnPanic"
    by (simp add: getNewQueueNum_def Intn_def Let_def)
next
  define L where "L = length (queues qm)"
  define n where "n = (of_nat L :: 32 word)"
  assume two: "2 \<le> length (queues qm)"
  have un: "unat n = L" unfolding n_def using len by (simp add: unat_of_nat_32 L_def)
  have "n \<noteq> 0" using un two by (auto simp: L_def)
  then have "unat (n - 1) = L - 1" using un by (simp add: unat_minus_one)
  then have bound: "uint (n - 1) = int L - 1" using two by (simp add: uint_nat L_def)
  define r where "r = int seed mod (int L - 1)"
  have pos: "0 < int L - 1" using two by (simp add: L_def)
  have intn: "Intn seed (uint (n - 1)) = Some r"
    using pos by (simp add: Intn_def bound r_def)
  have r0: "0 \<le> r" and r1: "r < int L - 1"
    using pos by (simp_all add: r_def)
  show "\<exists>r. Intn seed (uint ((of_nat (length (queues qm)) :: 32 word) - 1)) = Some r
                \<and> 0 \<le> r \<and> r \<le> int (length (queues qm)) - 2"
    using intn r0 r1 by (auto simp: n_def L_def)
  have "r < 2 ^ 32" using r1 len by (simp add: L_def)
  then have "uint (word_of_int r :: 32 word) = r"
    using r0 by (simp add: uint_word_of_int)
  then have us: "unat (word_of_int r :: 32 word) = nat r"
    by (simp add: unat_eq_nat_uint)
  then have inr: "unat (word_of_int r :: 32 word) < unat n" using r0 r1 un by simp
  from getNewQueueNum_loop_in_range [where qs = "queues qm" and n = n
      and queueIdx = "word_of_int r" and startIdx = "word_of_int r" and j = 0
      and lowestNum = "length (queues qm ! unat (word_of_int r :: 32 word))", OF _ inr]
  obtain idx where "getNewQueueNum_loop (queues qm) n (word_of_int r) 0
      (length (queues qm ! unat (word_of_int r :: 32 word))) (word_of_int r) = Inr idx"
    and "unat idx < unat n"
    using un by (auto simp: L_def)
  then show "\<exists>idx. getNewQueueNum qm seed = Inr idx \<and> unat idx < length (queues qm)"
    using intn inr un by (auto simp: getNewQueueNum_def Let_def n_def L_def)
qed


theorem getNewQueueNum_needs_two_queues_witness:
  "length (queues (newQueueMap 2)) < 2 ^ 32 \<and> 2 \<le> length (queues (newQueueMap 2))
   \<and> (\<exists>idx. getNewQueueNum (newQueueMap 2) 5 = Inr idx \<and> unat idx < 2)
   \<and> length (queues (newQueueMap 1)) = 1
   \<and> getNewQueueNum (newQueueMap 1) 5 = Inl IntnPanic"
proof -
  have a: "length (queues (newQueueMap 2)) < 2 ^ 32" by (simp add: newQueueMap_def)
  have b: "length (queues (newQueueMap 1)) < 2 ^ 32" by (simp add: newQueueMap_def)
  have c: "length (queues (newQueueMap 2)) = 2" by (simp add: newQueueMap_def)
  have d: "length (queues (newQueueMap 1)) = 1" by (simp add: newQueueMap_def)
  show ?thesis
    using getNewQueueNum_needs_two_queues [OF a, of 5]
      getNewQueueNum_needs_two_queues [OF b, of 5] a c d
    by simp
qed

section \<open>Routing an event to its queue\<close>




section \<open>Routing deletes\<close>

lemma forEachIn_total:
  "(\<And>h. f h = Inr (g h)) \<Longrightarrow> forEachIn f hs = Inr (concat (map g hs))"
  by (induction hs) simp_all

lemma runProcessFunc_delete: "runProcessFunc K i ProcDelete e = Inr (map (\<lambda>h. Call_OnDelete h (ev_obj e)) (handlersDescending K i))"
proof -
  have "forEachIn (deleteClosure (ev_obj e)) (handlersDescending K i)
      = Inr (concat (map (\<lambda>h. [Call_OnDelete h (ev_obj e)]) (handlersDescending K i)))"
    by (rule forEachIn_total) (simp add: deleteClosure_def)
  also have "concat (map (\<lambda>h. [Call_OnDelete h (ev_obj e)]) (handlersDescending K i))
      = map (\<lambda>h. Call_OnDelete h (ev_obj e)) (handlersDescending K i)"
    by (induction "handlersDescending K i") simp_all
  finally show ?thesis by (simp add: forEachQueuedHandlerReversed_def)
qed

text \<open>
  C8. A delete event on an informer whose declared type is a resource type (the only
  types \<open>newBaseInformer\<close> accepts). An object of the declared type is routed as it
  is; a tombstone wrapping an object of the declared type is unwrapped and the inner
  object is routed; every other object is dropped: one error line is logged, no handler
  is invoked and nothing is enqueued. Routed means: in the federated path every handler
  gets \<open>OnDelete\<close> of the object, in descending priority order; in the queued path the
  object is enqueued as a delete event, and processing that event gives every handler
  \<open>OnDelete\<close> of the object in the same order.
\<close>

theorem delete_routing:
  assumes rt: "oType i = ResourceType tn"
  shows "(TypeOf ob = oType i \<longrightarrow>
            federated_DeleteFunc K i ob = Inr (map (\<lambda>h. Call_OnDelete h ob) (handlersDescending K i))
          \<and> queued_DeleteFunc i ob seed qm =
              (case enqueueEvent NilObj ob (oType i) True ProcDelete seed qm of
                 Inl f \<Rightarrow> Inl f | Inr (qm1, snd1, logs) \<Rightarrow> Inr (qm1, Some snd1, logs)))
     \<and> (\<forall>k inner. ob = DeletedFinalStateUnknown k inner \<and> TypeOf inner = oType i \<longrightarrow>
            federated_DeleteFunc K i ob = Inr (map (\<lambda>h. Call_OnDelete h inner) (handlersDescending K i))
          \<and> queued_DeleteFunc i ob seed qm =
              (case enqueueEvent NilObj inner (oType i) True ProcDelete seed qm of
                 Inl f \<Rightarrow> Inl f | Inr (qm1, snd1, logs) \<Rightarrow> Inr (qm1, Some snd1, logs)))
     \<and> (TypeOf ob \<noteq> oType i
          \<and> (\<forall>k inner. ob = DeletedFinalStateUnknown k inner \<longrightarrow> TypeOf inner \<noteq> oType i) \<longrightarrow>
            (\<exists>fmt args. federated_DeleteFunc K i ob = Inr [klog_Errorf fmt args]
               \<and> queued_DeleteFunc i ob seed qm = Inr (qm, None, [klog_Errorf fmt args])))
     \<and> (\<forall>oldOb realObj pf qm1 q e logs.
            enqueueEvent oldOb realObj (oType i) True pf seed qm = Inr (qm1, (q, e), logs) \<longrightarrow>
              ev_obj e = realObj \<and> rel_isDel e \<and> processFunc e = pf
              \<and> runProcessFunc K i ProcDelete e
                  = Inr (map (\<lambda>h. Call_OnDelete h realObj) (handlersDescending K i)))"
proof (intro conjI allI impI)
  assume t: "TypeOf ob = oType i"
  then have e: "ensureObjectOnDelete ob (oType i) = Inr ob" by (simp add: ensureObjectOnDelete_def)
  have "forEachIn (deleteClosure ob) (handlersDescending K i)
      = Inr (concat (map (\<lambda>h. [Call_OnDelete h ob]) (handlersDescending K i)))"
    by (rule forEachIn_total) (simp add: deleteClosure_def)
  also have "concat (map (\<lambda>h. [Call_OnDelete h ob]) (handlersDescending K i))
      = map (\<lambda>h. Call_OnDelete h ob) (handlersDescending K i)"
    by (induction "handlersDescending K i") simp_all
  finally show "federated_DeleteFunc K i ob = Inr (map (\<lambda>h. Call_OnDelete h ob) (handlersDescending K i))"
    using t by (simp add: federated_DeleteFunc_def e forEachHandlerReversed_def)
  show "queued_DeleteFunc i ob seed qm =
              (case enqueueEvent NilObj ob (oType i) True ProcDelete seed qm of
                 Inl f \<Rightarrow> Inl f | Inr (qm1, snd1, logs) \<Rightarrow> Inr (qm1, Some snd1, logs))"
    by (simp add: queued_DeleteFunc_def e)
next
  fix k inner
  assume h: "ob = DeletedFinalStateUnknown k inner \<and> TypeOf inner = oType i"
  then have e: "ensureObjectOnDelete (DeletedFinalStateUnknown k inner) (oType i) = Inr inner"
    using rt by (simp add: ensureObjectOnDelete_def)
  have "forEachIn (deleteClosure inner) (handlersDescending K i)
      = Inr (concat (map (\<lambda>h. [Call_OnDelete h inner]) (handlersDescending K i)))"
    by (rule forEachIn_total) (simp add: deleteClosure_def)
  also have "concat (map (\<lambda>h. [Call_OnDelete h inner]) (handlersDescending K i))
      = map (\<lambda>h. Call_OnDelete h inner) (handlersDescending K i)"
    by (induction "handlersDescending K i") simp_all
  finally show "federated_DeleteFunc K i ob = Inr (map (\<lambda>h. Call_OnDelete h inner) (handlersDescending K i))"
    using h by (simp add: federated_DeleteFunc_def e forEachHandlerReversed_def)
  show "queued_DeleteFunc i ob seed qm =
              (case enqueueEvent NilObj inner (oType i) True ProcDelete seed qm of
                 Inl f \<Rightarrow> Inl f | Inr (qm1, snd1, logs) \<Rightarrow> Inr (qm1, Some snd1, logs))"
    using h by (simp add: queued_DeleteFunc_def e)
next
  assume h: "TypeOf ob \<noteq> oType i
          \<and> (\<forall>k inner. ob = DeletedFinalStateUnknown k inner \<longrightarrow> TypeOf inner \<noteq> oType i)"
  then obtain err where e: "ensureObjectOnDelete ob (oType i) = Inl err"
    by (cases ob) (auto simp: ensureObjectOnDelete_def)
  show "\<exists>fmt args. federated_DeleteFunc K i ob = Inr [klog_Errorf fmt args]
               \<and> queued_DeleteFunc i ob seed qm = Inr (qm, None, [klog_Errorf fmt args])"
    by (simp add: federated_DeleteFunc_def queued_DeleteFunc_def e)
next
  fix oldOb realObj pf qm1 q e logs
  assume h: "enqueueEvent oldOb realObj (oType i) True pf seed qm = Inr (qm1, (q, e), logs)"
  then have ev: "ev_obj e = realObj \<and> rel_isDel e \<and> processFunc e = pf"
    by (auto simp: enqueueEvent_def split: sum.splits option.splits prod.splits)
  then show "ev_obj e = realObj" "rel_isDel e" "processFunc e = pf" by simp_all
  show "runProcessFunc K i ProcDelete e
                  = Inr (map (\<lambda>h. Call_OnDelete h realObj) (handlersDescending K i))"
    using ev runProcessFunc_delete [of K i e] by (simp del: runProcessFunc.simps)
qed


theorem delete_routing_witness:
  "oType twoHandlers = ResourceType ''*v1.Pod''
   \<and> TypeOf examplePod = oType twoHandlers
   \<and> federated_DeleteFunc exampleConsts twoHandlers examplePod
       = Inr [Call_OnDelete 11 examplePod, Call_OnDelete 10 examplePod]
   \<and> federated_DeleteFunc exampleConsts twoHandlers (DeletedFinalStateUnknown ''default/p1'' examplePod)
       = Inr [Call_OnDelete 11 examplePod, Call_OnDelete 10 examplePod]
   \<and> (\<exists>fmt args. federated_DeleteFunc exampleConsts twoHandlers exampleService
           = Inr [klog_Errorf fmt args]
         \<and> queued_DeleteFunc twoHandlers exampleService 5 (newQueueMap 2)
           = Inr (newQueueMap 2, None, [klog_Errorf fmt args]))"
proof -
  have rt: "oType twoHandlers = ResourceType ''*v1.Pod''"
    by (simp add: twoHandlers_def newInformer_def podType_def)
  have t: "TypeOf examplePod = oType twoHandlers"
    by (simp add: rt examplePod_def)
  have upto: "rev [0..4::int] = [4, 3, 2, 1, 0]"
    by (simp add: upto.simps)
  have desc: "handlersDescending exampleConsts twoHandlers = [11, 10]"
    by (simp add: handlersDescending_def exampleConsts_def upto handlersAt_def twoHandlers_def)
  have nt: "TypeOf exampleService \<noteq> oType twoHandlers
            \<and> (\<forall>k inner. exampleService = DeletedFinalStateUnknown k inner
                   \<longrightarrow> TypeOf inner \<noteq> oType twoHandlers)"
    by (simp add: rt exampleService_def)
  show ?thesis
    using delete_routing [OF rt, of "DeletedFinalStateUnknown ''default/p1'' examplePod"
        exampleConsts 5 "newQueueMap 2"]
      delete_routing [OF rt, of exampleService exampleConsts 5 "newQueueMap 2"]
      delete_routing [OF rt, of examplePod exampleConsts 5 "newQueueMap 2"]
      rt t desc nt
    by simp
qed

section \<open>Order of the fan-out\<close>







lemma distinct_concat_unique:
  "distinct (concat (map G xs)) \<Longrightarrow> x \<in> set xs \<Longrightarrow> y \<in> set xs \<Longrightarrow>
   a \<in> set (G x) \<Longrightarrow> a \<in> set (G y) \<Longrightarrow> x = y"
  by (induction xs) auto

lemma registered_entry:
  "registered i p h \<Longrightarrow> \<exists>m. (p, m) \<in> set (handlers i) \<and> handlersAt i p = m \<and> h \<in> set (map snd m)"
  by (auto simp: registered_def handlersAt_def split: option.splits dest: map_of_SomeD)

lemma registered_unique:
  assumes d: "distinct (handlerRefs i)" and p: "registered i p h" and r: "registered i r h"
  shows "p = r"
proof -
  from registered_entry [OF p] obtain m where m: "(p, m) \<in> set (handlers i)" "h \<in> set (map snd m)"
    by blast
  from registered_entry [OF r] obtain m' where m': "(r, m') \<in> set (handlers i)" "h \<in> set (map snd m')"
    by blast
  have "(p, m) = (r, m')"
    using distinct_concat_unique [of "\<lambda>(p, m). map snd m" "handlers i" "(p, m)" "(r, m')" h]
      d m m' by (simp add: handlerRefs_def)
  then show ?thesis by simp
qed

lemma not_in_other_priorities:
  assumes d: "distinct (handlerRefs i)" and p: "registered i p h"
      and ps: "p \<notin> set ps"
  shows "h \<notin> set (concat (map (\<lambda>r. map snd (handlersAt i r)) ps))"
proof
  assume "h \<in> set (concat (map (\<lambda>r. map snd (handlersAt i r)) ps))"
  then obtain r where "r \<in> set ps" and "h \<in> snd ` set (handlersAt i r)" by auto
  then have "registered i r h" by (simp add: registered_def)
  then have "p = r" using registered_unique [OF d p] by simp
  then show False using ps \<open>r \<in> set ps\<close> by simp
qed










lemma distinct_concat_part:
  "distinct (concat (map G xs)) \<Longrightarrow> x \<in> set xs \<Longrightarrow> distinct (G x)"
  by (induction xs) auto

lemma filter_eq_singleton:
  "distinct xs \<Longrightarrow> h \<in> set xs \<Longrightarrow> filter (\<lambda>x. x = h) xs = [h]"
  by (induction xs) (auto simp: filter_empty_conv)

lemma occurs_once:
  assumes d: "distinct (handlerRefs i)" and p: "registered i p h"
      and lo: "0 \<le> p" and hi: "p \<le> minHandlerPriority K"
  shows "filter (\<lambda>x. x = h) (handlersAscending K i) = [h]"
proof -
  define G where "G = (\<lambda>r. map snd (handlersAt i r))"
  have split: "[0..minHandlerPriority K] = [0..p - 1] @ p # [p + 1..minHandlerPriority K]"
    using lo hi by (rule upto_split3)
  from registered_entry [OF p] obtain m where m: "(p, m) \<in> set (handlers i)"
    and at: "handlersAt i p = m" and hm: "h \<in> set (map snd m)"
    by blast
  have "distinct (map snd m)"
    using distinct_concat_part [of "\<lambda>(p, m). map snd m" "handlers i" "(p, m)"] d m
    by (simp add: handlerRefs_def)
  then have here: "filter (\<lambda>x. x = h) (G p) = [h]"
    using hm by (simp add: G_def at filter_eq_singleton)
  have "h \<notin> set (concat (map G [0..p - 1]))"
    unfolding G_def by (rule not_in_other_priorities [OF d p]) simp
  then have before: "filter (\<lambda>x. x = h) (concat (map G [0..p - 1])) = []"
    by (auto simp: filter_empty_conv)
  have "h \<notin> set (concat (map G [p + 1..minHandlerPriority K]))"
    unfolding G_def by (rule not_in_other_priorities [OF d p]) simp
  then have after: "filter (\<lambda>x. x = h) (concat (map G [p + 1..minHandlerPriority K])) = []"
    by (auto simp: filter_empty_conv)
  have "handlersAscending K i
      = concat (map G [0..p - 1]) @ G p @ concat (map G [p + 1..minHandlerPriority K])"
    unfolding handlersAscending_def G_def by (subst split) simp
  then show ?thesis using here before after by simp
qed

lemma concat_if_filter:
  "concat (map (\<lambda>h'. if h' = h then X else []) hs) = concat (map (\<lambda>_. X) (filter (\<lambda>x. x = h) hs))"
  by (induction hs) auto

lemma callsOn_forEachIn:
  assumes f: "\<And>h'. f h' = Inr (g h')"
      and g: "\<And>h'. callsOn (g h') h = (if h' = h then X else [])"
      and once: "filter (\<lambda>x. x = h) hs = [h]"
  shows "\<exists>effs. forEachIn f hs = Inr effs \<and> callsOn effs h = X"
proof -
  have run: "forEachIn f hs = Inr (concat (map g hs))"
    using f by (rule forEachIn_total)
  have "callsOn (concat (map g hs)) h = concat (map (\<lambda>h'. callsOn (g h') h) hs)"
    by (simp add: callsOn_def filter_concat comp_def)
  also have "\<dots> = concat (map (\<lambda>h'. if h' = h then X else []) hs)"
    by (simp add: g)
  also have "\<dots> = X"
    by (simp add: concat_if_filter once)
  finally show ?thesis using run by simp
qed




section \<open>Updates that replace an object\<close>

text \<open>
  C6. An update event whose old and new objects both carry metadata, at a handler
  registered under a priority between 0 and \<open>minHandlerPriority\<close>. If the UIDs of the
  two objects differ, the calls on the handler are \<open>OnDelete(old)\<close> followed by
  \<open>OnAdd(new)\<close>, and no \<open>OnUpdate\<close>; if the UIDs are equal, the handler gets the single
  call \<open>OnUpdate(old, new)\<close>. This holds in the federated path (for a new object of the
  declared type, which is what passes the type check) and for the processing of the
  event that the queued path enqueues.
\<close>

theorem update_replacement:
  assumes mo: "asMetaObject oldOb = Some mo" and mn: "asMetaObject newOb = Some mn"
      and d: "distinct (handlerRefs i)" and reg: "registered i p h"
      and lo: "0 \<le> p" and hi: "p \<le> minHandlerPriority K"
  shows "(TypeOf newOb = oType i \<longrightarrow>
            (\<exists>effs. federated_UpdateFunc K i oldOb newOb = Inr effs
               \<and> callsOn effs h =
                   (if GetUID mo \<noteq> GetUID mn
                    then [Call_OnDelete h oldOb, Call_OnAdd h newOb]
                    else [Call_OnUpdate h oldOb newOb])))
     \<and> (\<forall>qm1 q e logs. queued_UpdateFunc i oldOb newOb seed qm = Inr (qm1, (q, e), logs) \<longrightarrow>
            (\<exists>effs. runProcessFunc K i (processFunc e) e = Inr effs
               \<and> callsOn effs h =
                   (if GetUID mo \<noteq> GetUID mn
                    then [Call_OnDelete h oldOb, Call_OnAdd h newOb]
                    else [Call_OnUpdate h oldOb newOb])))"
proof -
  define X where "X = (if GetUID mo \<noteq> GetUID mn
                    then [Call_OnDelete h oldOb, Call_OnAdd h newOb]
                    else [Call_OnUpdate h oldOb newOb])"
  define g where "g = (\<lambda>h'. if GetUID mo \<noteq> GetUID mn
             then [klog_Infof ''Object %s/%s is replaced, invoking delete followed by add handler''
                         [ArgStr (GetNamespace mn), ArgStr (GetName mn)],
                   Call_OnDelete h' oldOb, Call_OnAdd h' newOb]
             else [Call_OnUpdate h' oldOb newOb])"
  have f: "\<And>h'. updateClosure oldOb newOb oldOb newOb h' = Inr (g h')"
    by (simp add: updateClosure_def mo mn g_def)
  have c: "\<And>h'. callsOn (g h') h = (if h' = h then X else [])"
    by (auto simp: callsOn_def g_def X_def)
  have once: "filter (\<lambda>x. x = h) (handlersAscending K i) = [h]"
    using d reg lo hi by (rule occurs_once)
  have main: "\<exists>effs. forEachIn (updateClosure oldOb newOb oldOb newOb) (handlersAscending K i) = Inr effs
      \<and> callsOn effs h = X"
    using f c once by (rule callsOn_forEachIn)
  have fed: "TypeOf newOb = oType i \<longrightarrow>
            (\<exists>effs. federated_UpdateFunc K i oldOb newOb = Inr effs \<and> callsOn effs h = X)"
    using main by (simp add: federated_UpdateFunc_def forEachHandler_def)
  have que: "\<forall>qm1 q e logs. queued_UpdateFunc i oldOb newOb seed qm = Inr (qm1, (q, e), logs) \<longrightarrow>
            (\<exists>effs. runProcessFunc K i (processFunc e) e = Inr effs \<and> callsOn effs h = X)"
  proof (intro allI impI)
    fix qm1 q e logs
    assume "queued_UpdateFunc i oldOb newOb seed qm = Inr (qm1, (q, e), logs)"
    then have "processFunc e = ProcUpdate oldOb newOb" and "ev_oldObj e = oldOb" and "ev_obj e = newOb"
      by (auto simp: queued_UpdateFunc_def enqueueEvent_def split: sum.splits option.splits prod.splits)
    then show "\<exists>effs. runProcessFunc K i (processFunc e) e = Inr effs \<and> callsOn effs h = X"
      using main by (simp add: forEachQueuedHandler_def)
  qed
  from fed que show ?thesis unfolding X_def by blast
qed

theorem update_replacement_witness:
  "asMetaObject examplePod = Some (''default'', ''p1'', ''uid-1'')
   \<and> asMetaObject replacedPod = Some (''default'', ''p1'', ''uid-2'')
   \<and> distinct (handlerRefs twoHandlers) \<and> registered twoHandlers 0 10
   \<and> TypeOf replacedPod = oType twoHandlers
   \<and> (\<exists>effs. federated_UpdateFunc exampleConsts twoHandlers examplePod replacedPod = Inr effs
         \<and> callsOn effs 10 = [Call_OnDelete 10 examplePod, Call_OnAdd 10 replacedPod])
   \<and> (\<exists>qm1 q e logs effs.
         queued_UpdateFunc twoHandlers examplePod replacedPod 5 (newQueueMap 2) = Inr (qm1, (q, e), logs)
         \<and> runProcessFunc exampleConsts twoHandlers (processFunc e) e = Inr effs
         \<and> callsOn effs 10 = [Call_OnDelete 10 examplePod, Call_OnAdd 10 replacedPod])"
proof -
  have mo: "asMetaObject examplePod = Some (''default'', ''p1'', ''uid-1'')"
    by (simp add: examplePod_def)
  have mn: "asMetaObject replacedPod = Some (''default'', ''p1'', ''uid-2'')"
    by (simp add: replacedPod_def)
  have d: "distinct (handlerRefs twoHandlers)"
    by (simp add: handlerRefs_def twoHandlers_def)
  have reg: "registered twoHandlers 0 10"
    by (simp add: registered_def handlersAt_def twoHandlers_def)
  have lo: "(0::int) \<le> 0" by simp
  have hi: "0 \<le> minHandlerPriority exampleConsts" by (simp add: exampleConsts_def)
  have t: "TypeOf replacedPod = oType twoHandlers"
    by (simp add: twoHandlers_def newInformer_def podType_def replacedPod_def)
  have uid: "GetUID (''default'', ''p1'', ''uid-1'') \<noteq> GetUID (''default'', ''p1'', ''uid-2'')"
    by (simp add: GetUID_def)
  have q: "getNewQueueNum (newQueueMap 2) 5 = Inr 0"
    by (simp add: getNewQueueNum_def newQueueMap_def Intn_def Let_def getNewQueueNum_loop.simps)
  have enq: "\<exists>qm1 q e logs.
      queued_UpdateFunc twoHandlers examplePod replacedPod 5 (newQueueMap 2) = Inr (qm1, (q, e), logs)"
    using t q
    by (simp add: queued_UpdateFunc_def enqueueEvent_def getQueueMapEntry_def getObjectMeta_def
        mn Let_def newQueueMap_def)
  note both = update_replacement [OF mo mn d reg lo hi, of 5 "newQueueMap 2", unfolded if_P [OF uid]]
  from both t have fed: "\<exists>effs. federated_UpdateFunc exampleConsts twoHandlers examplePod replacedPod = Inr effs
         \<and> callsOn effs 10 = [Call_OnDelete 10 examplePod, Call_OnAdd 10 replacedPod]"
    by blast
  from enq obtain qm1 q e logs where
    e: "queued_UpdateFunc twoHandlers examplePod replacedPod 5 (newQueueMap 2) = Inr (qm1, (q, e), logs)"
    by blast
  with both have "\<exists>effs. runProcessFunc exampleConsts twoHandlers (processFunc e) e = Inr effs
         \<and> callsOn effs 10 = [Call_OnDelete 10 examplePod, Call_OnAdd 10 replacedPod]"
    by blast
  with e have que: "\<exists>qm1 q e logs effs.
         queued_UpdateFunc twoHandlers examplePod replacedPod 5 (newQueueMap 2) = Inr (qm1, (q, e), logs)
         \<and> runProcessFunc exampleConsts twoHandlers (processFunc e) e = Inr effs
         \<and> callsOn effs 10 = [Call_OnDelete 10 examplePod, Call_OnAdd 10 replacedPod]"
    by blast
  from mo mn d reg t fed que show ?thesis by blast
qed


section \<open>The entries of the queue map\<close>

lemma sint_of_nat_32: "m < 2 ^ 31 \<Longrightarrow> sint (of_nat m :: 32 word) = int m"
  by (simp add: signed_of_nat signed_take_bit_int_eq_self)

lemma mset_concat_update:
  "i < length qs \<Longrightarrow> mset (concat (qs[i := x])) + mset (qs ! i) = mset (concat qs) + mset x"
proof (induction qs arbitrary: i)
  case Nil
  then show ?case by simp
next
  case (Cons q qs)
  then show ?case by (cases i) (auto simp: ac_simps)
qed

lemma length_concat_le:
  "(\<forall>q \<in> set qs. length q \<le> c) \<Longrightarrow> length (concat qs) \<le> c * length qs"
  by (induction qs) auto

lemma length_concat_options:
  "length (concat (map (\<lambda>w. case w of None \<Rightarrow> [] | Some e \<Rightarrow> [e]) ws)) \<le> length ws"
  by (induction ws) (auto split: option.splits)

lemma inflight_bound:
  assumes "shape N s"
  shows "size (inflight s) \<le> 11 * N + 1"
proof -
  have a: "size (mset (map snd (case sending s of None \<Rightarrow> [] | Some p \<Rightarrow> [p]))) \<le> 1"
    by (simp split: option.splits)
  have b: "size (mset (concat (queues (qmap s)))) \<le> 10 * N"
    using length_concat_le [of "queues (qmap s)" chanCap] assms
    by (simp add: shape_def chanCap_def)
  have c: "size (mset (concat (map (\<lambda>w. case w of None \<Rightarrow> [] | Some e \<Rightarrow> [e]) (workers s)))) \<le> N"
    using length_concat_options [of "workers s"] assms by (simp add: shape_def)
  show ?thesis
    using a b c unfolding inflight_def by (simp del: size_mset)
qed

lemma inflightFor_bound: "size (inflightFor s k) \<le> size (inflight s)"
  by (simp add: inflightFor_def size_filter_mset_lesseq)

lemma enqueueEvent_Inr:
  assumes "enqueueEvent oldOb ob t isDel pf seed qm = Inr (qm1, (q, e), logs)"
  shows "\<exists>a. rel_entry e = Some a \<and> rel_isDel e = isDel \<and> queues qm1 = queues qm
     \<and> (\<forall>b. b \<noteq> a \<longrightarrow> entryStore qm1 b = entryStore qm b)
     \<and> ((entries qm (rel_key e) = Some a \<and> entries qm1 = entries qm
           \<and> nextEntry qm1 = nextEntry qm
           \<and> refcount (entryStore qm1 a) = refcount (entryStore qm a) + 1)
        \<or> (entries qm (rel_key e) = None \<and> a = nextEntry qm
           \<and> entries qm1 = (entries qm)(rel_key e \<mapsto> a)
           \<and> nextEntry qm1 = Suc a \<and> refcount (entryStore qm1 a) = 1))"
  using assms
  by (auto simp: enqueueEvent_def getQueueMapEntry_def Let_def
      split: sum.splits option.splits prod.splits if_splits)

lemma release_facts:
  "queues (releaseQueueMapEntry k (Some a) del qm) = queues qm
   \<and> nextEntry (releaseQueueMapEntry k (Some a) del qm) = nextEntry qm
   \<and> (\<forall>b. b \<noteq> a \<longrightarrow> entryStore (releaseQueueMapEntry k (Some a) del qm) b = entryStore qm b)
   \<and> refcount (entryStore (releaseQueueMapEntry k (Some a) del qm) a) = refcount (entryStore qm a) - 1
   \<and> entries (releaseQueueMapEntry k (Some a) del qm)
       = (if del \<and> sint (refcount (entryStore qm a) - 1) \<le> 0
          then (entries qm)(k := None) else entries qm)"
  by (simp add: releaseQueueMapEntry_def Let_def)

lemma inflight_enqueue:
  assumes "sending s = None" and "queues qm1 = queues (qmap s)"
  shows "inflight (s\<lparr>qmap := qm1, sending := Some (q, e)\<rparr>) = add_mset e (inflight s)"
  using assms by (simp add: inflight_def)

lemma inflight_send:
  assumes "sending s = Some (q, e)" and "unat q < length (queues (qmap s))"
  shows "inflight (s\<lparr>qmap := (qmap s)\<lparr>queues :=
                          (queues (qmap s))[unat q := queues (qmap s) ! unat q @ [e]]\<rparr>,
                      sending := None\<rparr>) = inflight s"
proof -
  have "mset (concat ((queues (qmap s))[unat q := queues (qmap s) ! unat q @ [e]]))
          + mset (queues (qmap s) ! unat q)
        = mset (concat (queues (qmap s))) + mset (queues (qmap s) ! unat q @ [e])"
    using assms(2) by (rule mset_concat_update)
  then have "mset (concat ((queues (qmap s))[unat q := queues (qmap s) ! unat q @ [e]]))
        = add_mset e (mset (concat (queues (qmap s))))"
    by simp
  then show ?thesis using assms(1) by (simp add: inflight_def)
qed

lemma inflight_receive:
  assumes "w < length (workers s)" and "w < length (queues (qmap s))"
      and "workers s ! w = None" and "queues (qmap s) ! w = e # rest"
  shows "inflight (s\<lparr>qmap := (qmap s)\<lparr>queues := (queues (qmap s))[w := rest]\<rparr>,
                     workers := (workers s)[w := Some e]\<rparr>) = inflight s"
proof -
  let ?f = "\<lambda>w. case w of None \<Rightarrow> [] | Some e \<Rightarrow> [e]"
  have "mset (concat ((queues (qmap s))[w := rest])) + mset (queues (qmap s) ! w)
        = mset (concat (queues (qmap s))) + mset rest"
    using assms(2) by (rule mset_concat_update)
  then have q: "add_mset e (mset (concat ((queues (qmap s))[w := rest])))
        = mset (concat (queues (qmap s)))"
    using assms(4) by simp
  have "mset (concat ((map ?f (workers s))[w := [e]])) + mset (map ?f (workers s) ! w)
        = mset (concat (map ?f (workers s))) + mset [e]"
    by (rule mset_concat_update) (simp add: assms(1))
  then have w: "mset (concat (map ?f ((workers s)[w := Some e])))
        = add_mset e (mset (concat (map ?f (workers s))))"
    using assms(1,3) by (simp add: map_update)
  show ?thesis
    unfolding inflight_def using q w by (simp flip: q)
qed

lemma inflight_finish:
  assumes "w < length (workers s)" and "workers s ! w = Some e" and "queues qm1 = queues (qmap s)"
  shows "add_mset e (inflight (s\<lparr>qmap := qm1, workers := (workers s)[w := None],
                                 lastCompleted := lc\<rparr>)) = inflight s"
proof -
  let ?f = "\<lambda>w. case w of None \<Rightarrow> [] | Some e \<Rightarrow> [e]"
  have "mset (concat ((map ?f (workers s))[w := []])) + mset (map ?f (workers s) ! w)
        = mset (concat (map ?f (workers s))) + mset []"
    by (rule mset_concat_update) (simp add: assms(1))
  then have "add_mset e (mset (concat (map ?f ((workers s)[w := None]))))
        = mset (concat (map ?f (workers s)))"
    using assms(1,2) by (simp add: map_update)
  then show ?thesis
    unfolding inflight_def using assms(3) by (simp flip: \<open>add_mset e _ = _\<close>)
qed


lemma inflightFor_add:
  "inflight s' = add_mset e (inflight s) \<Longrightarrow>
   inflightFor s' k = (if rel_key e = k then add_mset e (inflightFor s k) else inflightFor s k)"
  by (simp add: inflightFor_def)

lemma inflightFor_same: "inflight s' = inflight s \<Longrightarrow> inflightFor s' k = inflightFor s k"
  by (simp add: inflightFor_def)

lemma linked_no_inflight:
  "linked s \<Longrightarrow> entries (qmap s) k = None \<Longrightarrow> inflightFor s k = {#}"
  by (auto simp: linked_def inflightFor_def)

lemma historyD1:
  "history s \<Longrightarrow> entries (qmap s) k = None \<Longrightarrow> lastCompleted s k \<noteq> Some False"
  unfolding history_def by blast

lemma historyD2:
  "history s \<Longrightarrow> entries (qmap s) k \<noteq> None \<Longrightarrow> inflightFor s k = {#} \<Longrightarrow>
   lastCompleted s k = Some False"
  unfolding history_def by blast

lemma countedD:
  "counted s \<Longrightarrow> entries (qmap s) k = Some a \<Longrightarrow>
   a < nextEntry (qmap s) \<and> refcount (entryStore (qmap s) a) = of_nat (size (inflightFor s k))"
  unfolding counted_def by blast

lemma unsharedD:
  "unshared s \<Longrightarrow> entries (qmap s) k = Some a \<Longrightarrow> entries (qmap s) k' = Some a \<Longrightarrow> k = k'"
  unfolding unshared_def by blast

lemma linkedD:
  "linked s \<Longrightarrow> e \<in># inflight s \<Longrightarrow>
   rel_entry e \<noteq> None \<and> entries (qmap s) (rel_key e) = rel_entry e"
  unfolding linked_def by blast

lemma qinv_initial: "qinv (unat n) (initial n)"
proof -
  have a: "concat (replicate m ([] :: event list)) = []" for m
    by (induction m) simp_all
  have b: "concat (map (\<lambda>w. case w of None \<Rightarrow> [] | Some e \<Rightarrow> [e]) (replicate m (None :: event option))) = []" for m
    by (induction m) simp_all
  have "inflight (initial n) = {#}"
    by (simp add: inflight_def initial_def newQueueMap_def a b)
  then show ?thesis
    by (simp add: qinv_def shape_def linked_def counted_def unshared_def history_def
        inflightFor_def initial_def newQueueMap_def)
qed

lemma qinv_enqueue:
  assumes inv: "qinv N s"
      and st: "qstep t (DoEnqueue oldOb ob isDel pf seed) s = Inr s'"
  shows "qinv N s'"
proof -
  from st obtain qm1 q e logs where nosend: "sending s = None"
    and enq: "enqueueEvent oldOb ob t isDel pf seed (qmap s) = Inr (qm1, (q, e), logs)"
    and s': "s' = s\<lparr>qmap := qm1, sending := Some (q, e)\<rparr>"
    by (auto split: option.splits sum.splits prod.splits)
  from enqueueEvent_Inr [OF enq] obtain a where ent: "rel_entry e = Some a"
    and qs: "queues qm1 = queues (qmap s)"
    and store: "\<And>b. b \<noteq> a \<Longrightarrow> entryStore qm1 b = entryStore (qmap s) b"
    and cases: "(entries (qmap s) (rel_key e) = Some a \<and> entries qm1 = entries (qmap s)
           \<and> nextEntry qm1 = nextEntry (qmap s)
           \<and> refcount (entryStore qm1 a) = refcount (entryStore (qmap s) a) + 1)
        \<or> (entries (qmap s) (rel_key e) = None \<and> a = nextEntry (qmap s)
           \<and> entries qm1 = (entries (qmap s))(rel_key e \<mapsto> a)
           \<and> nextEntry qm1 = Suc a \<and> refcount (entryStore qm1 a) = 1)"
    by blast
  from inv have sh: "shape N s" and li: "linked s" and co: "counted s" and un: "unshared s"
    and hi: "history s"
    by (simp_all add: qinv_def)
  have infl: "inflight s' = add_mset e (inflight s)"
    unfolding s' using nosend qs by (rule inflight_enqueue)
  note inflFor = inflightFor_add [OF infl]
  have qm': "qmap s' = qm1" and lc': "lastCompleted s' = lastCompleted s"
    and wk': "workers s' = workers s"
    by (simp_all add: s')
  have sh': "shape N s'"
    using sh by (simp add: shape_def qm' wk' qs)
  from cases show ?thesis
  proof
    assume "entries (qmap s) (rel_key e) = Some a \<and> entries qm1 = entries (qmap s)
           \<and> nextEntry qm1 = nextEntry (qmap s)
           \<and> refcount (entryStore qm1 a) = refcount (entryStore (qmap s) a) + 1"
    then have old: "entries (qmap s) (rel_key e) = Some a" "entries qm1 = entries (qmap s)"
      "nextEntry qm1 = nextEntry (qmap s)"
      "refcount (entryStore qm1 a) = refcount (entryStore (qmap s) a) + 1"
      by blast+
    have li': "linked s'"
      unfolding linked_def qm' infl using linkedD [OF li] old ent by auto
    have co': "counted s'"
      unfolding counted_def qm'
    proof (intro allI impI)
      fix k b
      assume kb: "entries qm1 k = Some b"
      then have kb0: "entries (qmap s) k = Some b" using old by simp
      from countedD [OF co this] have lt: "b < nextEntry (qmap s)"
        and rc: "refcount (entryStore (qmap s) b) = of_nat (size (inflightFor s k))"
        by simp_all
      show "b < nextEntry qm1 \<and> refcount (entryStore qm1 b) = of_nat (size (inflightFor s' k))"
      proof (cases "k = rel_key e")
        case True
        then have "b = a" using kb0 old by simp
        then show ?thesis using True lt rc old by (simp add: inflFor)
      next
        case False
        then have "b \<noteq> a" using unsharedD [OF un kb0, of "rel_key e"] old by auto
        then show ?thesis using False lt rc old store by (simp add: inflFor)
      qed
    qed
    have un': "unshared s'"
      unfolding unshared_def qm' using unsharedD [OF un] old by auto
    have hi': "history s'"
      unfolding history_def qm' lc'
    proof (intro allI conjI impI)
      fix k
      assume "entries qm1 k = None"
      then show "lastCompleted s k \<noteq> Some False" using historyD1 [OF hi, of k] old by simp
    next
      fix k
      assume h: "entries qm1 k \<noteq> None \<and> inflightFor s' k = {#}"
      then have "k \<noteq> rel_key e" by (auto simp: inflFor)
      then have "inflightFor s k = {#}" using h by (simp add: inflFor)
      then show "lastCompleted s k = Some False" using historyD2 [OF hi, of k] old h by simp
    qed
    from sh' li' co' un' hi' show ?thesis by (simp add: qinv_def)
  next
    assume "entries (qmap s) (rel_key e) = None \<and> a = nextEntry (qmap s)
           \<and> entries qm1 = (entries (qmap s))(rel_key e \<mapsto> a)
           \<and> nextEntry qm1 = Suc a \<and> refcount (entryStore qm1 a) = 1"
    then have new: "entries (qmap s) (rel_key e) = None" "a = nextEntry (qmap s)"
      "entries qm1 = (entries (qmap s))(rel_key e \<mapsto> a)"
      "nextEntry qm1 = Suc a" "refcount (entryStore qm1 a) = 1"
      by blast+
    have none: "inflightFor s (rel_key e) = {#}"
      using li new by (simp add: linked_no_inflight)
    have li': "linked s'"
      unfolding linked_def qm' infl
    proof (intro allI impI)
      fix e'
      assume "e' \<in># add_mset e (inflight s)"
      then consider "e' = e" | "e' \<in># inflight s" by auto
      then show "rel_entry e' \<noteq> None \<and> entries qm1 (rel_key e') = rel_entry e'"
      proof cases
        case 1
        then show ?thesis using ent new by simp
      next
        case 2
        then have l: "rel_entry e' \<noteq> None \<and> entries (qmap s) (rel_key e') = rel_entry e'"
          using li by (rule linkedD [rotated])
        then have "rel_key e' \<noteq> rel_key e" using new by auto
        then show ?thesis using l new by simp
      qed
    qed
    have co': "counted s'"
      unfolding counted_def qm'
    proof (intro allI impI)
      fix k b
      assume kb: "entries qm1 k = Some b"
      show "b < nextEntry qm1 \<and> refcount (entryStore qm1 b) = of_nat (size (inflightFor s' k))"
      proof (cases "k = rel_key e")
        case True
        then have "b = a" using kb new by simp
        then show ?thesis using True new none by (simp add: inflFor)
      next
        case False
        then have kb0: "entries (qmap s) k = Some b" using kb new by simp
        from countedD [OF co this] have lt: "b < nextEntry (qmap s)"
          and rc: "refcount (entryStore (qmap s) b) = of_nat (size (inflightFor s k))"
          by simp_all
        then have "b \<noteq> a" using new by simp
        then show ?thesis using False lt rc new store by (simp add: inflFor)
      qed
    qed
    have un': "unshared s'"
      unfolding unshared_def qm'
    proof (intro allI impI)
      fix k k' b
      assume h: "entries qm1 k = Some b \<and> entries qm1 k' = Some b"
      have fresh: "\<And>k0 b0. entries (qmap s) k0 = Some b0 \<Longrightarrow> b0 \<noteq> a"
        using countedD [OF co] new by fastforce
      show "k = k'"
      proof (cases "k = rel_key e")
        case True
        then have ba: "b = a" using h new by simp
        have "k' = rel_key e"
        proof (rule ccontr)
          assume "k' \<noteq> rel_key e"
          then have "entries (qmap s) k' = Some a" using h new ba by simp
          then show False using fresh by blast
        qed
        then show ?thesis using True by simp
      next
        case False
        then have k0: "entries (qmap s) k = Some b" using h new by simp
        then have "b \<noteq> a" by (rule fresh)
        then have "k' \<noteq> rel_key e" using h new by auto
        then have "entries (qmap s) k' = Some b" using h new by simp
        then show ?thesis using unsharedD [OF un k0] by simp
      qed
    qed
    have hi': "history s'"
      unfolding history_def qm' lc'
    proof (intro allI conjI impI)
      fix k
      assume "entries qm1 k = None"
      then have "entries (qmap s) k = None" using new by (auto split: if_splits)
      then show "lastCompleted s k \<noteq> Some False" using historyD1 [OF hi, of k] by simp
    next
      fix k
      assume h: "entries qm1 k \<noteq> None \<and> inflightFor s' k = {#}"
      then have ne: "k \<noteq> rel_key e" by (auto simp: inflFor)
      then have "inflightFor s k = {#}" and "entries (qmap s) k \<noteq> None"
        using h new by (simp_all add: inflFor)
      then show "lastCompleted s k = Some False" using historyD2 [OF hi, of k] by simp
    qed
    from sh' li' co' un' hi' show ?thesis by (simp add: qinv_def)
  qed
qed


lemma qinv_same:
  assumes "qinv N s" and "shape N s'" and "inflight s' = inflight s"
      and "entries (qmap s') = entries (qmap s)" and "entryStore (qmap s') = entryStore (qmap s)"
      and "nextEntry (qmap s') = nextEntry (qmap s)" and "lastCompleted s' = lastCompleted s"
  shows "qinv N s'"
  using assms
  by (simp add: qinv_def linked_def counted_def unshared_def history_def inflightFor_def)

lemma qinv_send:
  assumes inv: "qinv N s" and st: "qstep t DoSend s = Inr s'"
  shows "qinv N s'"
proof -
  from st obtain q e where snd: "sending s = Some (q, e)"
    and inr: "unat q < length (queues (qmap s))"
    and room: "length (queues (qmap s) ! unat q) < chanCap"
    and s': "s' = s\<lparr>qmap := (qmap s)\<lparr>queues :=
                          (queues (qmap s))[unat q := queues (qmap s) ! unat q @ [e]]\<rparr>,
                      sending := None\<rparr>"
    by (auto split: option.splits if_splits)
  have infl: "inflight s' = inflight s"
    unfolding s' using snd inr by (rule inflight_send)
  from inv have sh: "shape N s" by (simp add: qinv_def)
  have "\<forall>x \<in> set ((queues (qmap s))[unat q := queues (qmap s) ! unat q @ [e]]). length x \<le> chanCap"
  proof
    fix x
    assume "x \<in> set ((queues (qmap s))[unat q := queues (qmap s) ! unat q @ [e]])"
    then have "x = queues (qmap s) ! unat q @ [e] \<or> x \<in> set (queues (qmap s))"
      using set_update_subset_insert by fastforce
    then show "length x \<le> chanCap" using room sh by (auto simp: shape_def)
  qed
  then have sh': "shape N s'" using sh by (simp add: shape_def s')
  show ?thesis
    by (rule qinv_same [OF inv sh' infl]) (simp_all add: s')
qed

lemma qinv_receive:
  assumes inv: "qinv N s" and st: "qstep t (DoReceive w) s = Inr s'"
  shows "qinv N s'"
proof -
  from st obtain e rest where w1: "w < length (workers s)" and w2: "w < length (queues (qmap s))"
    and idle: "workers s ! w = None" and hd: "queues (qmap s) ! w = e # rest"
    and s': "s' = s\<lparr>qmap := (qmap s)\<lparr>queues := (queues (qmap s))[w := rest]\<rparr>,
                     workers := (workers s)[w := Some e]\<rparr>"
    by (auto split: option.splits if_splits list.splits)
  have infl: "inflight s' = inflight s"
    unfolding s' using w1 w2 idle hd by (rule inflight_receive)
  from inv have sh: "shape N s" by (simp add: qinv_def)
  have "\<forall>x \<in> set ((queues (qmap s))[w := rest]). length x \<le> chanCap"
  proof
    fix x
    assume "x \<in> set ((queues (qmap s))[w := rest])"
    then have "x = rest \<or> x \<in> set (queues (qmap s))"
      using set_update_subset_insert by fastforce
    moreover have "e # rest \<in> set (queues (qmap s))" using w2 hd by (metis nth_mem)
    ultimately show "length x \<le> chanCap" using sh by (auto simp: shape_def)
  qed
  then have sh': "shape N s'" using sh by (simp add: shape_def s')
  show ?thesis
    by (rule qinv_same [OF inv sh' infl]) (simp_all add: s')
qed

lemma qinv_finish:
  assumes inv: "qinv N s" and st: "qstep t (DoFinish w) s = Inr s'"
      and small: "11 * N + 1 < 2 ^ 31"
  shows "qinv N s'"
proof -
  from st obtain e where w1: "w < length (workers s)" and busy: "workers s ! w = Some e"
    and s': "s' = s\<lparr>qmap := releaseQueueMapEntry (rel_key e) (rel_entry e) (rel_isDel e) (qmap s),
                 workers := (workers s)[w := None],
                 lastCompleted := (lastCompleted s)(rel_key e \<mapsto> rel_isDel e)\<rparr>"
    by (auto split: option.splits if_splits)
  from inv have sh: "shape N s" and li: "linked s" and co: "counted s" and un: "unshared s"
    and hi: "history s"
    by (simp_all add: qinv_def)
  define k where "k = rel_key e"
  define del where "del = rel_isDel e"
  define qm1 where "qm1 = releaseQueueMapEntry k (rel_entry e) del (qmap s)"
  have qm': "qmap s' = qm1" and lc': "lastCompleted s' = (lastCompleted s)(k \<mapsto> del)"
    and wk': "workers s' = (workers s)[w := None]"
    by (simp_all add: s' qm1_def k_def del_def)
  have "e \<in># inflight s"
    using w1 busy unfolding inflight_def
    by (auto intro!: bexI [of _ "Some e"] simp: in_set_conv_nth)
  from linkedD [OF li this] obtain a where ent: "rel_entry e = Some a"
    and present: "entries (qmap s) k = Some a"
    by (auto simp: k_def)
  note rel = release_facts [of k a del "qmap s", folded ent, folded qm1_def]
  have qs: "queues qm1 = queues (qmap s)" using rel by simp
  have infl: "add_mset e (inflight s') = inflight s"
    unfolding s' using w1 busy
    by (rule inflight_finish) (simp add: qs [unfolded qm1_def k_def del_def])
  define m where "m = size (inflightFor s' k)"
  have forK: "inflightFor s k = add_mset e (inflightFor s' k)"
    by (simp add: inflightFor_def k_def flip: infl)
  have other: "\<And>k'. k' \<noteq> k \<Longrightarrow> inflightFor s' k' = inflightFor s k'"
    by (simp add: inflightFor_def k_def flip: infl)
  have sub: "\<And>x. x \<in># inflight s' \<Longrightarrow> x \<in># inflight s"
    by (simp flip: infl)
  from countedD [OF co present] have rc: "refcount (entryStore (qmap s) a) = of_nat (Suc m)"
    and lt: "a < nextEntry (qmap s)"
    by (simp_all add: forK m_def)
  have rc1: "refcount (entryStore qm1 a) = of_nat m"
    using rel rc by simp
  have "Suc m \<le> size (inflight s)"
    using inflightFor_bound [of s k] by (simp add: forK m_def)
  then have "m < 2 ^ 31"
    using inflight_bound [OF sh] small by linarith
  then have "sint (refcount (entryStore (qmap s) a) - 1) = int m"
    using rc by (simp add: sint_of_nat_32)
  then have ents: "entries qm1 = (if del \<and> m = 0 then (entries (qmap s))(k := None) else entries (qmap s))"
    using rel by simp
  have store: "\<And>b. b \<noteq> a \<Longrightarrow> entryStore qm1 b = entryStore (qmap s) b"
    using rel by simp
  have nxt: "nextEntry qm1 = nextEntry (qmap s)" using rel by simp
  have sh': "shape N s'"
    using sh by (simp add: shape_def qm' wk' qs)
  have li': "linked s'"
    unfolding linked_def qm'
  proof (intro allI impI)
    fix x
    assume x: "x \<in># inflight s'"
    then have l: "rel_entry x \<noteq> None \<and> entries (qmap s) (rel_key x) = rel_entry x"
      using linkedD [OF li] sub by blast
    have "rel_key x = k \<Longrightarrow> m \<noteq> 0"
      using x by (auto simp: m_def inflightFor_def)
    then have "entries qm1 (rel_key x) = entries (qmap s) (rel_key x)"
      by (auto simp: ents)
    then show "rel_entry x \<noteq> None \<and> entries qm1 (rel_key x) = rel_entry x"
      using l by simp
  qed
  have keep: "\<And>k' b. entries qm1 k' = Some b \<Longrightarrow> entries (qmap s) k' = Some b"
    by (auto simp: ents split: if_splits)
  have co': "counted s'"
    unfolding counted_def qm'
  proof (intro allI impI)
    fix k' b
    assume "entries qm1 k' = Some b"
    then have kb: "entries (qmap s) k' = Some b" by (rule keep)
    show "b < nextEntry qm1 \<and> refcount (entryStore qm1 b) = of_nat (size (inflightFor s' k'))"
    proof (cases "k' = k")
      case True
      then have "b = a" using kb present by simp
      then show ?thesis using True lt rc1 nxt by (simp add: m_def)
    next
      case False
      then have "b \<noteq> a" using unsharedD [OF un kb, of k] present by auto
      then show ?thesis using countedD [OF co kb] False store nxt other by simp
    qed
  qed
  have un': "unshared s'"
    unfolding unshared_def qm' using unsharedD [OF un] keep by blast
  have hi': "history s'"
    unfolding history_def qm' lc'
  proof (intro allI conjI impI)
    fix k'
    assume none: "entries qm1 k' = None"
    show "((lastCompleted s)(k \<mapsto> del)) k' \<noteq> Some False"
    proof (cases "k' = k")
      case True
      then have "del" using none present by (auto simp: ents split: if_splits)
      then show ?thesis using True by simp
    next
      case False
      then have "entries (qmap s) k' = None" using none by (auto simp: ents split: if_splits)
      then show ?thesis using historyD1 [OF hi, of k'] False by simp
    qed
  next
    fix k'
    assume h: "entries qm1 k' \<noteq> None \<and> inflightFor s' k' = {#}"
    show "((lastCompleted s)(k \<mapsto> del)) k' = Some False"
    proof (cases "k' = k")
      case True
      then have "m = 0" using h by (simp add: m_def)
      then have "\<not> del" using h True by (auto simp: ents)
      then show ?thesis using True by simp
    next
      case False
      then have "entries (qmap s) k' \<noteq> None" using h keep [of k'] by blast
      then show ?thesis using historyD2 [OF hi, of k'] False h other by simp
    qed
  qed
  from sh' li' co' un' hi' show ?thesis by (simp add: qinv_def)
qed

lemma qinv_step:
  assumes "qinv N s" and "qstep t a s = Inr s'" and "11 * N + 1 < 2 ^ 31"
  shows "qinv N s'"
  using assms
  by (cases a) (auto intro: qinv_enqueue qinv_send qinv_receive qinv_finish)

lemma qinv_run:
  assumes "qinv N s" and "run t as s = Inr s'" and "11 * N + 1 < 2 ^ 31"
  shows "qinv N s'"
  using assms
proof (induction as arbitrary: s)
  case Nil
  then show ?case by simp
next
  case (Cons a as)
  from Cons.prems(2) obtain s1 where a: "qstep t a s = Inr s1" and r: "run t as s1 = Inr s'"
    by (auto split: sum.splits)
  have "qinv N s1" using Cons.prems(1) a Cons.prems(3) by (rule qinv_step)
  then show ?case using r Cons.prems(3) by (rule Cons.IH)
qed


text \<open>
  C4, as the code has it. In every state that a queue map reaches from \<open>newQueueMap\<close>
  by enqueueing events with \<open>enqueueEvent\<close> and completing them with
  \<open>releaseQueueMapEntry\<close> (with fewer than \<open>2^31\<close> events in flight, which the bound on
  the number of queues ensures), the entry for a key \<open>k\<close> is absent from the map iff no
  event for \<open>k\<close> is in flight and either no event for \<open>k\<close> has completed yet or the
  event for \<open>k\<close> that completed last was a delete. The completion of a non-delete
  event decrements the refcount of the event's entry and leaves the map of entries as
  it is; the entry is still stored under the event's key.
\<close>

theorem queue_map_entry_absent_iff:
  assumes run: "run t acts (initial n) = Inr s" and small: "11 * unat n + 1 < 2 ^ 31"
  shows "(entries (qmap s) k = None \<longleftrightarrow>
            inflightFor s k = {#} \<and> (lastCompleted s k = None \<or> lastCompleted s k = Some True))
     \<and> (\<forall>w e s'. qstep t (DoFinish w) s = Inr s' \<and> w < length (workers s)
            \<and> workers s ! w = Some e \<and> \<not> rel_isDel e \<longrightarrow>
          (\<exists>a. rel_entry e = Some a \<and> entries (qmap s) (rel_key e) = Some a
             \<and> entries (qmap s') = entries (qmap s)
             \<and> refcount (entryStore (qmap s') a) = refcount (entryStore (qmap s) a) - 1))"
proof -
  have inv: "qinv (unat n) s"
    using qinv_initial run small by (rule qinv_run)
  then have li: "linked s" and hi: "history s" by (simp_all add: qinv_def)
  have iff: "entries (qmap s) k = None \<longleftrightarrow>
            inflightFor s k = {#} \<and> (lastCompleted s k = None \<or> lastCompleted s k = Some True)"
  proof
    assume none: "entries (qmap s) k = None"
    have "lastCompleted s k \<noteq> Some False" using hi none by (rule historyD1)
    then have "lastCompleted s k = None \<or> lastCompleted s k = Some True"
      by (cases "lastCompleted s k") auto
    then show "inflightFor s k = {#} \<and> (lastCompleted s k = None \<or> lastCompleted s k = Some True)"
      using linked_no_inflight [OF li none] by simp
  next
    assume r: "inflightFor s k = {#} \<and> (lastCompleted s k = None \<or> lastCompleted s k = Some True)"
    show "entries (qmap s) k = None"
    proof (rule ccontr)
      assume "entries (qmap s) k \<noteq> None"
      then have "lastCompleted s k = Some False" using historyD2 [OF hi] r by blast
      then show False using r by auto
    qed
  qed
  have fin: "\<forall>w e s'. qstep t (DoFinish w) s = Inr s' \<and> w < length (workers s)
            \<and> workers s ! w = Some e \<and> \<not> rel_isDel e \<longrightarrow>
          (\<exists>a. rel_entry e = Some a \<and> entries (qmap s) (rel_key e) = Some a
             \<and> entries (qmap s') = entries (qmap s)
             \<and> refcount (entryStore (qmap s') a) = refcount (entryStore (qmap s) a) - 1)"
  proof (intro allI impI)
    fix w e s'
    assume h: "qstep t (DoFinish w) s = Inr s' \<and> w < length (workers s)
            \<and> workers s ! w = Some e \<and> \<not> rel_isDel e"
    then have "e \<in># inflight s"
      unfolding inflight_def by (auto intro!: bexI [of _ "Some e"] simp: in_set_conv_nth)
    from linkedD [OF li this] obtain a where ent: "rel_entry e = Some a"
      and present: "entries (qmap s) (rel_key e) = Some a"
      by auto
    have "qmap s' = releaseQueueMapEntry (rel_key e) (Some a) False (qmap s)"
      using h ent by auto
    then show "\<exists>a. rel_entry e = Some a \<and> entries (qmap s) (rel_key e) = Some a
             \<and> entries (qmap s') = entries (qmap s)
             \<and> refcount (entryStore (qmap s') a) = refcount (entryStore (qmap s) a) - 1"
      using ent present release_facts [of "rel_key e" a False "qmap s"] by simp
  qed
  from iff fin show ?thesis by blast
qed

text \<open>
  C4 as stated fails in the state of a new queue map: the key has no entry and no event
  in flight, but no completed event either, so the last completed event was not a delete.
\<close>

theorem queue_map_entry_absent_iff_counterexample:
  "\<not> (entries (qmap (initial 2)) (''default'', ''p1'') = None \<longleftrightarrow>
        inflightFor (initial 2) (''default'', ''p1'') = {#}
        \<and> lastCompleted (initial 2) (''default'', ''p1'') = Some True)"
  by (simp add: initial_def newQueueMap_def)


theorem queue_map_entry_absent_iff_witness:
  "11 * unat (2 :: 32 word) + 1 < 2 ^ 31
   \<and> (\<exists>s. run podType addThenDelete (initial 2) = Inr s
         \<and> inflightFor s (''default'', ''p1'') = {#}
         \<and> lastCompleted s (''default'', ''p1'') = Some True
         \<and> entries (qmap s) (''default'', ''p1'') = None)"
proof -
  have small: "11 * unat (2 :: 32 word) + 1 < 2 ^ 31" by simp
  have "(case run podType addThenDelete (initial 2) of
           Inl x \<Rightarrow> False
         | Inr s \<Rightarrow> lastCompleted s (''default'', ''p1'') = Some True \<and> sending s = None
              \<and> queues (qmap s) = [[], []] \<and> workers s = [None, None])"
    by code_simp
  then obtain s where run: "run podType addThenDelete (initial 2) = Inr s"
    and lc: "lastCompleted s (''default'', ''p1'') = Some True"
    and idle: "sending s = None" "queues (qmap s) = [[], []]" "workers s = [None, None]"
    by (cases "run podType addThenDelete (initial 2)") auto
  have none: "inflightFor s (''default'', ''p1'') = {#}"
    using idle by (simp add: inflightFor_def inflight_def)
  have "entries (qmap s) (''default'', ''p1'') = None"
    using queue_map_entry_absent_iff [OF run small, of "(''default'', ''p1'')"] none lc
    by blast
  with small run none lc show ?thesis by blast
qed

section \<open>Registration keeps the handler addresses apart\<close>

text \<open>
  The assumption of the fan-out theorems, that the informer holds every handler address
  once, holds for a new informer and is kept by \<open>addHandler\<close> (which allocates a new
  handler) and by the goroutine of \<open>removeHandler\<close>.
\<close>

lemma handlerRefs_alt: "handlerRefs i = concat (map (\<lambda>x. map snd (snd x)) (handlers i))"
  by (simp add: handlerRefs_def split_def)

lemma update_refs:
  "distinct (map snd m) \<Longrightarrow> a \<notin> set (map snd m) \<Longrightarrow>
   distinct (map snd (AList.update k a m))
   \<and> set (map snd (AList.update k a m)) \<subseteq> insert a (set (map snd m))"
proof (induction m)
  case Nil
  then show ?case by simp
next
  case (Cons x m)
  then show ?case by (cases x) (auto simp: image_iff)
qed

lemma refs_after_update:
  "set (concat (map G (AList.update p m' hs))) \<subseteq> set (G (p, m')) \<union> set (concat (map G hs))"
proof (induction hs)
  case Nil
  then show ?case by simp
next
  case (Cons x hs)
  obtain q mq where x: "x = (q, mq)" by (cases x)
  show ?case
  proof (cases "q = p")
    case True
    then show ?thesis by (simp add: x) blast
  next
    case False
    then show ?thesis using Cons.IH by (simp add: x) blast
  qed
qed

lemma entry_refs:
  "map_of hs p = Some m \<Longrightarrow> set (G (p, m)) \<subseteq> set (concat (map G hs))"
  by (auto dest!: map_of_SomeD)

lemma distinct_refs_update:
  assumes "distinct (concat (map G hs))" and "distinct (G (p, m'))"
      and "set (G (p, m')) \<subseteq> insert a (case map_of hs p of None \<Rightarrow> {} | Some m \<Rightarrow> set (G (p, m)))"
      and "a \<notin> set (concat (map G hs))"
  shows "distinct (concat (map G (AList.update p m' hs)))"
  using assms
proof (induction hs)
  case Nil
  then show ?case by simp
next
  case (Cons x hs)
  obtain q mq where x: "x = (q, mq)" by (cases x)
  from Cons.prems(1) have dx: "distinct (G (q, mq))" and dh: "distinct (concat (map G hs))"
    and disj: "set (G (q, mq)) \<inter> set (concat (map G hs)) = {}"
    by (simp_all add: x)
  from Cons.prems(4) have ax: "a \<notin> set (G (q, mq))" and ah: "a \<notin> set (concat (map G hs))"
    by (simp_all add: x)
  show ?case
  proof (cases "q = p")
    case True
    then have "set (G (p, m')) \<subseteq> insert a (set (G (q, mq)))"
      using Cons.prems(3) by (simp add: x)
    then have "set (G (p, m')) \<inter> set (concat (map G hs)) = {}"
      using disj ah by blast
    then show ?thesis using True Cons.prems(2) dh by (simp add: x)
  next
    case False
    then have sub: "set (G (p, m')) \<subseteq> insert a (case map_of hs p of None \<Rightarrow> {} | Some m \<Rightarrow> set (G (p, m)))"
      using Cons.prems(3) by (simp add: x)
    have ih: "distinct (concat (map G (AList.update p m' hs)))"
      using dh Cons.prems(2) sub ah by (rule Cons.IH)
    have "(case map_of hs p of None \<Rightarrow> {} | Some m \<Rightarrow> set (G (p, m))) \<subseteq> set (concat (map G hs))"
      using entry_refs [of hs p _ G] by (auto split: option.splits)
    then have "set (G (p, m')) \<subseteq> insert a (set (concat (map G hs)))"
      using sub by blast
    then have "set (G (q, mq)) \<inter> set (G (p, m')) = {}"
      using disj ax by blast
    then have "set (G (q, mq)) \<inter> set (concat (map G (AList.update p m' hs))) = {}"
      using refs_after_update [of G p m' hs] disj by blast
    then show ?thesis using False dx ih by (simp add: x)
  qed
qed

lemma handlersAt_refs: "set (map snd (handlersAt i p)) \<subseteq> set (handlerRefs i)"
proof (cases "map_of (handlers i) p")
  case None
  then show ?thesis by (simp add: handlersAt_def)
next
  case (Some m)
  from entry_refs [OF this, of "\<lambda>x. map snd (snd x)"] Some show ?thesis
    by (simp add: handlersAt_def handlerRefs_alt)
qed

lemma distinct_handlersAt:
  assumes d: "distinct (handlerRefs i)"
  shows "distinct (map snd (handlersAt i p))"
proof (cases "map_of (handlers i) p")
  case None
  then show ?thesis by (simp add: handlersAt_def)
next
  case (Some m)
  have "(p, m) \<in> set (handlers i)" using Some by (rule map_of_SomeD)
  then have "distinct (map snd m)"
    using distinct_concat_part [of "\<lambda>x. map snd (snd x)" "handlers i" "(p, m)"] d
    by (simp add: handlerRefs_alt)
  then show ?thesis using Some by (simp add: handlersAt_def)
qed

lemma newInformer_refs: "handlerRefs (newInformer t) = []"
  by (simp add: handlerRefs_def newInformer_def)

lemma addHandler_keeps_refs_distinct:
  assumes d: "distinct (handlerRefs i)" and fresh: "a \<notin> set (handlerRefs i)"
  shows "distinct (handlerRefs (fst (snd (addHandler K i hs a b ident prio existingItems))))"
proof -
  define G where "G = (\<lambda>x :: int \<times> (64 word \<times> href) list. map snd (snd x))"
  define m' where "m' = AList.update ident a (handlersAt i prio)"
  have notin: "a \<notin> set (map snd (handlersAt i prio))"
    using fresh handlersAt_refs [of i prio] by blast
  from update_refs [OF distinct_handlersAt [OF d] notin, of ident]
  have m1: "distinct (map snd m')"
    and m2: "set (map snd m') \<subseteq> insert a (set (map snd (handlersAt i prio)))"
    by (simp_all add: m'_def)
  have "set (map snd (handlersAt i prio))
      = (case map_of (handlers i) prio of None \<Rightarrow> {} | Some m \<Rightarrow> set (G (prio, m)))"
    by (simp add: handlersAt_def G_def split: option.splits)
  then have m3: "set (G (prio, m'))
      \<subseteq> insert a (case map_of (handlers i) prio of None \<Rightarrow> {} | Some m \<Rightarrow> set (G (prio, m)))"
    using m2 by (simp add: G_def)
  have "distinct (concat (map G (AList.update prio m' (handlers i))))"
  proof (rule distinct_refs_update [OF _ _ m3])
    show "distinct (concat (map G (handlers i)))" using d by (simp add: handlerRefs_alt G_def)
    show "distinct (G (prio, m'))" using m1 by (simp add: G_def)
    show "a \<notin> set (concat (map G (handlers i)))" using fresh by (simp add: handlerRefs_alt G_def)
  qed
  then show ?thesis
    by (simp add: addHandler_def Let_def handlerRefs_alt G_def m'_def)
qed

lemma removeHandler_go_keeps_refs_distinct:
  assumes d: "distinct (handlerRefs i)"
  shows "distinct (handlerRefs (fst (removeHandler_go i ident)))"
proof -
  define D where "D = (\<lambda>x :: int \<times> (64 word \<times> href) list. (fst x, AList.delete ident (snd x)))"
  define G where "G = (\<lambda>x :: int \<times> (64 word \<times> href) list. map snd (snd x))"
  have sub: "set (G (D x)) \<subseteq> set (G x)" for x
    by (auto simp: G_def D_def AList.delete_eq)
  have dm: "distinct (G x) \<Longrightarrow> distinct (G (D x))" for x
    by (simp add: G_def D_def AList.delete_eq distinct_map_filter)
  have "distinct (concat (map G hs)) \<Longrightarrow>
        distinct (concat (map G (map D hs)))
        \<and> set (concat (map G (map D hs))) \<subseteq> set (concat (map G hs))" for hs
  proof (induction hs)
    case Nil
    then show ?case by simp
  next
    case (Cons x hs)
    then have ih: "distinct (concat (map G (map D hs)))"
      and ihs: "set (concat (map G (map D hs))) \<subseteq> set (concat (map G hs))"
      and dx: "distinct (G x)" and disj: "set (G x) \<inter> set (concat (map G hs)) = {}"
      by simp_all
    have "set (G (D x)) \<inter> set (concat (map G (map D hs))) = {}"
      using sub [of x] ihs disj by blast
    moreover have "set (G (D x)) \<union> set (concat (map G (map D hs)))
        \<subseteq> set (G x) \<union> set (concat (map G hs))"
      using sub [of x] ihs by blast
    ultimately show ?case using dm [OF dx] ih by simp
  qed
  moreover have "handlers (fst (removeHandler_go i ident)) = map D (handlers i)"
    by (simp add: removeHandler_go_def Let_def D_def case_prod_beta)
  ultimately show ?thesis
    using d by (simp add: handlerRefs_alt G_def)
qed


end
